theory Spec2Isabelle
  imports Main "HOL-Library.Multiset"
begin

section \<open>Python values, errors and list operations\<close>

text \<open>
  The exceptions the builder can raise: \<open>IndexError\<close> from list indexing and
  \<open>ValueError\<close> from \<open>list.remove\<close> and from \<open>max\<close> of an empty sequence.
\<close>

datatype error = IndexError | ValueError

text \<open>
  A board entry is a Python value: an integer (\<open>0\<close> for an unknown cell, a positive clue
  otherwise) or a separator string such as \<open>' '\<close>, \<open>'|'\<close> and \<open>'-'\<close>.
\<close>

datatype pyval = PInt int | PStr string

type_synonym cell = "int \<times> int"
type_synonym room = "cell list"
type_synonym board = "pyval list list"

text \<open>
  Python list indexing \<open>xs[i]\<close>: an index \<open>-len \<le> i < 0\<close> counts from the end, anything
  beyond raises \<open>IndexError\<close>. \<open>py_pos\<close> is the position that is read.
\<close>

definition py_pos :: "nat \<Rightarrow> int \<Rightarrow> nat option" where
  "py_pos n i =
     (if 0 \<le> i \<and> i < int n then Some (nat i)
      else if - int n \<le> i \<and> i < 0 then Some (nat (int n + i))
      else None)"

definition py_index :: "'a list \<Rightarrow> int \<Rightarrow> error + 'a" where
  "py_index xs i = (case py_pos (length xs) i of None \<Rightarrow> Inl IndexError | Some p \<Rightarrow> Inr (xs ! p))"

text \<open>\<open>xs.remove(x)\<close> deletes the first occurrence and raises \<open>ValueError\<close> when there is none.\<close>

definition py_remove :: "'a \<Rightarrow> 'a list \<Rightarrow> error + 'a list" where
  "py_remove x xs = (if x \<in> set xs then Inr (remove1 x xs) else Inl ValueError)"

text \<open>\<open>xs.insert(i, x)\<close> for \<open>i \<ge> 0\<close>: an index beyond the end appends.\<close>

definition py_insert :: "nat \<Rightarrow> 'a \<Rightarrow> 'a list \<Rightarrow> 'a list" where
  "py_insert i x xs = take i xs @ x # drop i xs"

text \<open>\<open>max(xs)\<close> raises \<open>ValueError\<close> on an empty list.\<close>

definition py_max :: "nat list \<Rightarrow> error + nat" where
  "py_max xs = (case xs of [] \<Rightarrow> Inl ValueError | y # ys \<Rightarrow> Inr (fold max ys y))"

text \<open>\<open>enumerate(xs)\<close>.\<close>

definition enumerate_list :: "'a list \<Rightarrow> (nat \<times> 'a) list" where
  "enumerate_list xs = zip [0..<length xs] xs"

text \<open>A \<open>for\<close> loop over a list whose body may raise: the first exception ends the loop.\<close>

fun foldE :: "('a \<Rightarrow> 's \<Rightarrow> error + 's) \<Rightarrow> 'a list \<Rightarrow> 's \<Rightarrow> error + 's" where
  "foldE f [] s = Inr s"
| "foldE f (x # xs) s = (case f x s of Inl e \<Rightarrow> Inl e | Inr s' \<Rightarrow> foldE f xs s')"

text \<open>A list comprehension whose element expression may raise.\<close>

fun mapE :: "('a \<Rightarrow> error + 'b) \<Rightarrow> 'a list \<Rightarrow> error + 'b list" where
  "mapE f [] = Inr []"
| "mapE f (x # xs) =
     (case f x of Inl e \<Rightarrow> Inl e
      | Inr y \<Rightarrow> (case mapE f xs of Inl e \<Rightarrow> Inl e | Inr ys \<Rightarrow> Inr (y # ys)))"

text \<open>\<open>str(n)\<close> for a non-negative integer, as \<open>format\<close> prints it.\<close>

function string_of_nat :: "nat \<Rightarrow> string" where
  "string_of_nat n =
     (if n < 10 then [char_of (48 + n)]
      else string_of_nat (n div 10) @ [char_of (48 + n mod 10)])"
  by pat_completeness auto
termination
  by (relation "measure id") auto

declare string_of_nat.simps [simp del]

text \<open>
  \<open>itertools.permutations(xs)\<close>: every ordering of the positions of \<open>xs\<close>, the element at
  the earliest position first. \<open>picks xs\<close> lists each element with the rest of the list.
\<close>

fun picks :: "'a list \<Rightarrow> ('a \<times> 'a list) list" where
  "picks [] = []"
| "picks (x # xs) = (x, xs) # map (\<lambda>(y, ys). (y, x # ys)) (picks xs)"

function permutations :: "'a list \<Rightarrow> 'a list list" where
  "permutations [] = [[]]"
| "permutations (x # xs) =
     concat (map (\<lambda>(y, ys). map ((#) y) (permutations ys)) (picks (x # xs)))"
  by pat_completeness auto
termination
proof (relation "measure length")
  show "wf (measure length)" by simp
next
  fix x :: 'a and xs :: "'a list" and p :: "'a \<times> 'a list" and y :: 'a and ys :: "'a list"
  assume p: "p \<in> set (picks (x # xs))" and e: "(y, ys) = p"
  have "(a, as) \<in> set (picks zs) \<Longrightarrow> length as < length zs"
    for zs :: "'a list" and a :: 'a and as :: "'a list"
    by (induction zs arbitrary: a as) auto
  from this[of y ys "x # xs"] p e show "(ys, x # xs) \<in> measure length" by simp
qed

text \<open>\<open>itertools.product(xs, repeat=2)\<close>, each pair as a two-element tuple.\<close>

definition product2 :: "'a list \<Rightarrow> 'a list list" where
  "product2 xs = map (\<lambda>(a, b). [a, b]) (List.product xs xs)"

text \<open>\<open>range(lo, hi)\<close> of non-negative bounds, as Python integers.\<close>

definition py_range :: "nat \<Rightarrow> nat \<Rightarrow> pyval list" where
  "py_range lo hi = map (\<lambda>n. PInt (int n)) [lo..<hi]"

section \<open>The constraint library's objects\<close>

text \<open>
  Modelled from the spec: the class \<open>Variable\<close> of the module \<open>cspbase\<close>, which the
  builder imports and which is not part of the sources. The spec gives a variable an
  identity (its name), a finite domain of candidate values and an optional fixed
  assignment; \<open>add_domain_values\<close> extends the domain, \<open>assign\<close> fixes the value,
  \<open>is_assigned\<close> and the assigned value are queries. The builder also writes the
  attribute \<open>domain\<close> directly.
\<close>

record variable =
  var_name :: string
  domain :: "pyval list"
  assignedValue :: "pyval option"

definition Variable :: "string \<Rightarrow> variable" where
  "Variable n = \<lparr>var_name = n, domain = [], assignedValue = None\<rparr>"

definition add_domain_values :: "variable \<Rightarrow> pyval list \<Rightarrow> variable" where
  "add_domain_values v vals = v\<lparr>domain := domain v @ vals\<rparr>"

definition assign :: "variable \<Rightarrow> pyval \<Rightarrow> variable" where
  "assign v x = v\<lparr>assignedValue := Some x\<rparr>"

definition is_assigned :: "variable \<Rightarrow> bool" where
  "is_assigned v = (assignedValue v \<noteq> None)"

text \<open>
  Modelled from the spec: the class \<open>Constraint\<close> of \<open>cspbase\<close>, absent from the sources:
  a name, an ordered scope of variables and the table of satisfying tuples, empty at
  creation and extended by \<open>add_satisfying_tuples\<close>.
\<close>

record constraint =
  con_name :: string
  scope :: "variable list"
  sat_tuples :: "pyval list list"

definition Constraint :: "string \<Rightarrow> variable list \<Rightarrow> constraint" where
  "Constraint n sc = \<lparr>con_name = n, scope = sc, sat_tuples = []\<rparr>"

definition add_satisfying_tuples :: "constraint \<Rightarrow> pyval list list \<Rightarrow> constraint" where
  "add_satisfying_tuples c ts = c\<lparr>sat_tuples := sat_tuples c @ ts\<rparr>"

text \<open>
  Modelled from the spec: the class \<open>CSP\<close> of \<open>cspbase\<close>, absent from the sources: a
  name and the registered variables, rooms and constraints, each kept in call order
  without deduplication or validation.
\<close>

record csp =
  csp_name :: string
  vars :: "variable list"
  rooms_of :: "room list"
  cons :: "constraint list"

definition CSP :: "string \<Rightarrow> csp" where
  "CSP n = \<lparr>csp_name = n, vars = [], rooms_of = [], cons = []\<rparr>"

definition add_var :: "variable \<Rightarrow> csp \<Rightarrow> csp" where
  "add_var v c = c\<lparr>vars := vars c @ [v]\<rparr>"

definition add_room :: "room \<Rightarrow> csp \<Rightarrow> csp" where
  "add_room r c = c\<lparr>rooms_of := rooms_of c @ [r]\<rparr>"

definition add_constraint :: "constraint \<Rightarrow> csp \<Rightarrow> csp" where
  "add_constraint k c = c\<lparr>cons := cons c @ [k]\<rparr>"

section \<open>make_variable\<close>

type_synonym grid = "variable list list"

definition new_var_array :: "nat \<Rightarrow> nat \<Rightarrow> grid" where
  "new_var_array M N =
     map (\<lambda>i. map (\<lambda>j. Variable (''V'' @ string_of_nat i @ '','' @ string_of_nat j)) [0..<M])
       [0..<N]"

text \<open>
  The variable objects are shared: the body of the loop changes the object found at
  \<open>var_array[i][j]\<close> in place. \<open>grid_set\<close> writes the changed object back at the position
  that was read.
\<close>

definition grid_set :: "grid \<Rightarrow> nat \<Rightarrow> nat \<Rightarrow> variable \<Rightarrow> grid" where
  "grid_set g p q v = g[p := (g ! p)[q := v]]"

text \<open>The value domain \<open>[(n+1) for n in range(max_domain)]\<close>.\<close>

definition pool :: "nat \<Rightarrow> pyval list" where
  "pool k = map (\<lambda>n. PInt (int n + 1)) [0..<k]"

text \<open>One pass of the inner loop of \<open>make_variable\<close>, for one cell of a room.\<close>

definition cell_step :: "board \<Rightarrow> nat \<Rightarrow> cell \<Rightarrow> grid \<Rightarrow> error + grid" where
  "cell_step board max_domain c var_array =
     (case c of (i, j) \<Rightarrow>
       (case py_pos (length var_array) i of None \<Rightarrow> Inl IndexError | Some p \<Rightarrow>
         (case py_pos (length (var_array ! p)) j of None \<Rightarrow> Inl IndexError | Some q \<Rightarrow>
           (let var = add_domain_values (var_array ! p ! q) (pool max_domain) in
             (case py_index board (i * 2) of Inl e \<Rightarrow> Inl e | Inr brow \<Rightarrow>
               (case py_index brow (j * 2) of Inl e \<Rightarrow> Inl e | Inr val \<Rightarrow>
                 Inr (grid_set var_array p q
                   (if val \<noteq> PInt 0 then (assign var val)\<lparr>domain := [val]\<rparr> else var))))))))"

definition make_variable :: "board \<Rightarrow> room list \<Rightarrow> nat \<Rightarrow> nat \<Rightarrow> error + grid" where
  "make_variable board rooms M N =
     foldE (\<lambda>room. foldE (cell_step board (length room)) room) rooms (new_var_array M N)"

section \<open>room_constraint\<close>

text \<open>The scope: \<open>var_array[i][j]\<close> for each cell of the room, in the room's order.\<close>

definition grid_get :: "grid \<Rightarrow> cell \<Rightarrow> error + variable" where
  "grid_get var_array c =
     (case c of (i, j) \<Rightarrow>
       (case py_index var_array i of Inl e \<Rightarrow> Inl e | Inr row \<Rightarrow> py_index row j))"

text \<open>
  The loop over \<open>enumerate(scope)\<close>: an assigned variable is recorded in \<open>found\<close> and its
  value removed from the pool \<open>it\<close>.
\<close>

fun remove_assigned ::
  "(nat \<times> variable) list \<Rightarrow> (nat \<times> pyval) list \<Rightarrow> pyval list \<Rightarrow>
     error + ((nat \<times> pyval) list \<times> pyval list)" where
  "remove_assigned [] found it = Inr (found, it)"
| "remove_assigned ((i, var) # rest) found it =
     (case assignedValue var of
        None \<Rightarrow> remove_assigned rest found it
      | Some val \<Rightarrow>
          (case py_remove val it of Inl e \<Rightarrow> Inl e
           | Inr it' \<Rightarrow> remove_assigned rest (found @ [(i, val)]) it'))"

text \<open>The loop that puts the assigned values back: every tuple gets \<open>val\<close> at index \<open>i\<close>.\<close>

definition insert_found :: "(nat \<times> pyval) list \<Rightarrow> pyval list list \<Rightarrow> pyval list list" where
  "insert_found found tups = fold (\<lambda>(i, val). map (py_insert i val)) found tups"

definition room_constraint :: "grid \<Rightarrow> room \<Rightarrow> nat \<Rightarrow> error + constraint" where
  "room_constraint var_array room k =
     (case mapE (grid_get var_array) room of Inl e \<Rightarrow> Inl e | Inr sc \<Rightarrow>
       (case remove_assigned (enumerate_list sc) [] (pool (length room)) of Inl e \<Rightarrow> Inl e
        | Inr (found, it) \<Rightarrow>
            Inr (add_satisfying_tuples (Constraint (''C'' @ string_of_nat k) sc)
                   (insert_found found (permutations it)))))"

section \<open>space_constraint\<close>

definition make_constraint :: "variable \<Rightarrow> variable \<Rightarrow> constraint" where
  "make_constraint var1 var2 =
     Constraint (''C-'' @ var_name var1 @ '':'' @ var_name var2) [var1, var2]"

text \<open>
  The tables \<open>n_dist_tuples\<close>: \<open>max_rsize\<close> separate copies of the full product, then for
  each \<open>n\<close> the pairs \<open>(v, v)\<close> with \<open>n + 1 \<le> v \<le> max_rsize\<close> removed from copy \<open>n\<close>.
\<close>

definition remove_diag :: "nat \<Rightarrow> nat \<Rightarrow> pyval list list list \<Rightarrow> error + pyval list list list" where
  "remove_diag max_rsize n tabs =
     foldE (\<lambda>t tabs.
         if n < length tabs
         then (case py_remove t (tabs ! n) of Inl e \<Rightarrow> Inl e | Inr tb \<Rightarrow> Inr (tabs[n := tb]))
         else Inl IndexError)
       (map (\<lambda>(a, b). [a, b])
          (zip (py_range (n + 1) (max_rsize + 1)) (py_range (n + 1) (max_rsize + 1))))
       tabs"

definition n_dist_tuples :: "nat \<Rightarrow> error + pyval list list list" where
  "n_dist_tuples max_rsize =
     foldE (remove_diag max_rsize) [0..<max_rsize]
       (map (\<lambda>i. product2 (py_range 1 (max_rsize + 1))) [0..<max_rsize])"

text \<open>Reading \<open>var_array[i][j]\<close> at indices produced by \<open>range\<close>.\<close>

definition grid_at :: "grid \<Rightarrow> nat \<Rightarrow> nat \<Rightarrow> error + variable" where
  "grid_at var_array i j = grid_get var_array (int i, int j)"

text \<open>
  The innermost loop, for one ordered pair of cells \<open>c1\<close>, \<open>c2\<close> on an axis with indices
  \<open>a\<close>, \<open>b\<close>: a constraint is appended when \<open>abs(a - b) = n + 1\<close>.
\<close>

definition dist_step ::
  "grid \<Rightarrow> pyval list list list \<Rightarrow> nat \<times> nat \<Rightarrow> nat \<times> nat \<Rightarrow> nat \<Rightarrow> nat \<Rightarrow> nat \<Rightarrow>
     constraint list \<Rightarrow> error + constraint list" where
  "dist_step var_array tabs c1 c2 a b n space_cons =
     (if \<bar>int a - int b\<bar> = int n + 1 then
        (case grid_at var_array (fst c1) (snd c1) of Inl e \<Rightarrow> Inl e | Inr var1 \<Rightarrow>
          (case grid_at var_array (fst c2) (snd c2) of Inl e \<Rightarrow> Inl e | Inr var2 \<Rightarrow>
            (if n < length tabs
             then Inr (space_cons @
                    [add_satisfying_tuples (make_constraint var1 var2) (tabs ! n)])
             else Inl IndexError)))
      else Inr space_cons)"

definition row_loop ::
  "grid \<Rightarrow> pyval list list list \<Rightarrow> nat \<Rightarrow> nat \<Rightarrow> nat \<Rightarrow> constraint list \<Rightarrow>
     error + constraint list" where
  "row_loop var_array tabs max_rsize M N =
     foldE (\<lambda>i. foldE (\<lambda>(a, b). foldE (dist_step var_array tabs (i, a) (i, b) a b)
                                    [0..<max_rsize])
                  (List.product [0..<M] [0..<M]))
       [0..<N]"

definition col_loop ::
  "grid \<Rightarrow> pyval list list list \<Rightarrow> nat \<Rightarrow> nat \<Rightarrow> nat \<Rightarrow> constraint list \<Rightarrow>
     error + constraint list" where
  "col_loop var_array tabs max_rsize M N =
     foldE (\<lambda>i. foldE (\<lambda>(a, b). foldE (dist_step var_array tabs (a, i) (b, i) a b)
                                    [0..<max_rsize])
                  (List.product [0..<N] [0..<N]))
       [0..<M]"

definition space_constraint :: "grid \<Rightarrow> nat \<Rightarrow> nat \<Rightarrow> nat \<Rightarrow> error + constraint list" where
  "space_constraint var_array max_rsize M N =
     (case n_dist_tuples max_rsize of Inl e \<Rightarrow> Inl e | Inr tabs \<Rightarrow>
       (case row_loop var_array tabs max_rsize M N [] of Inl e \<Rightarrow> Inl e | Inr row_cons \<Rightarrow>
          col_loop var_array tabs max_rsize M N row_cons))"

section \<open>ripple_effect_csp_model\<close>

definition ripple_effect_csp_model :: "board \<Rightarrow> room list \<Rightarrow> error + (csp \<times> grid)" where
  "ripple_effect_csp_model initial_RP_board rooms =
     (case py_index initial_RP_board 0 of Inl e \<Rightarrow> Inl e | Inr row0 \<Rightarrow>
       (let M = (length row0 + 1) div 2; N = (length initial_RP_board + 1) div 2 in
         (case make_variable initial_RP_board rooms M N of Inl e \<Rightarrow> Inl e | Inr var_array \<Rightarrow>
           (case mapE (\<lambda>(k, room). room_constraint var_array room (k + 1)) (enumerate_list rooms)
            of Inl e \<Rightarrow> Inl e | Inr room_cons \<Rightarrow>
             (case py_max (map length rooms) of Inl e \<Rightarrow> Inl e | Inr max_rsize \<Rightarrow>
               (case space_constraint var_array max_rsize M N of Inl e \<Rightarrow> Inl e
                | Inr space_cons \<Rightarrow>
                   Inr (fold add_constraint space_cons
                         (fold add_constraint room_cons
                           (fold add_room rooms
                             (fold (\<lambda>row. fold add_var row) var_array
                               (CSP ''Ripple_Effect'')))),
                        var_array)))))))"

section \<open>The builder over a store of variable objects\<close>

text \<open>
  In Python the variables are objects shared by reference between the grid, the scopes
  of the constraints and the returned model, and the builder changes them in place. The
  embedding of this section keeps that sharing: the variable objects live in a store, a
  reference is an index of the store, the grid, the scopes and the model hold references,
  and every function of the source takes the store and returns it, so that each call on
  a variable object is a step of the store. The functions below follow the source
  statement by statement, as those of the sections above do, which compute on the values
  of the objects.
\<close>

type_synonym ref = nat
type_synonym store = "variable list"
type_synonym ref_grid = "ref list list"

text \<open>
  A list comprehension and a \<open>for\<close> loop that builds a list, with the store threaded
  through the calls, without and with exceptions.
\<close>

fun mapS :: "('a \<Rightarrow> 's \<Rightarrow> 'b \<times> 's) \<Rightarrow> 'a list \<Rightarrow> 's \<Rightarrow> 'b list \<times> 's" where
  "mapS f [] s = ([], s)"
| "mapS f (x # xs) s =
     (case f x s of (y, s1) \<Rightarrow> (case mapS f xs s1 of (ys, s2) \<Rightarrow> (y # ys, s2)))"

fun mapES :: "('a \<Rightarrow> 's \<Rightarrow> error + 'b \<times> 's) \<Rightarrow> 'a list \<Rightarrow> 's \<Rightarrow> error + 'b list \<times> 's" where
  "mapES f [] s = Inr ([], s)"
| "mapES f (x # xs) s =
     (case f x s of Inl e \<Rightarrow> Inl e
      | Inr (y, s1) \<Rightarrow>
          (case mapES f xs s1 of Inl e \<Rightarrow> Inl e | Inr (ys, s2) \<Rightarrow> Inr (y # ys, s2)))"

text \<open>
  Modelled from the spec: the methods of the class \<open>Variable\<close> of \<open>cspbase\<close>, absent from
  the sources, as steps of the store. The constructor allocates a new object at the next
  free address; \<open>add_domain_values\<close>, \<open>assign\<close> and the assignment to the attribute
  \<open>domain\<close> change the object at the given address and no other; \<open>is_assigned\<close> and
  \<open>get_assigned_value\<close> are queries, which return the store they were given.
\<close>

definition new_Variable :: "string \<Rightarrow> store \<Rightarrow> ref \<times> store" where
  "new_Variable n st = (length st, st @ [Variable n])"

definition obj_add_domain_values :: "ref \<Rightarrow> pyval list \<Rightarrow> store \<Rightarrow> store" where
  "obj_add_domain_values a vals st = st[a := add_domain_values (st ! a) vals]"

definition obj_assign :: "ref \<Rightarrow> pyval \<Rightarrow> store \<Rightarrow> store" where
  "obj_assign a x st = st[a := assign (st ! a) x]"

definition obj_set_domain :: "ref \<Rightarrow> pyval list \<Rightarrow> store \<Rightarrow> store" where
  "obj_set_domain a d st = st[a := (st ! a)\<lparr>domain := d\<rparr>]"

definition obj_is_assigned :: "ref \<Rightarrow> store \<Rightarrow> bool \<times> store" where
  "obj_is_assigned a st = (is_assigned (st ! a), st)"

definition obj_get_assigned_value :: "ref \<Rightarrow> store \<Rightarrow> pyval \<times> store" where
  "obj_get_assigned_value a st = (the (assignedValue (st ! a)), st)"

text \<open>
  Modelled from the spec: the class \<open>Constraint\<close> of \<open>cspbase\<close>, absent from the sources,
  with a scope of references. The constructor records the name and the scope, and
  \<open>add_satisfying_tuples\<close> extends the table of the constraint; neither touches a
  variable object.
\<close>

record constraint_obj =
  co_name :: string
  co_scope :: "ref list"
  co_tuples :: "pyval list list"

definition new_Constraint :: "string \<Rightarrow> ref list \<Rightarrow> store \<Rightarrow> constraint_obj \<times> store" where
  "new_Constraint n sc st = (\<lparr>co_name = n, co_scope = sc, co_tuples = []\<rparr>, st)"

definition obj_add_satisfying_tuples ::
  "constraint_obj \<Rightarrow> pyval list list \<Rightarrow> store \<Rightarrow> constraint_obj \<times> store" where
  "obj_add_satisfying_tuples c ts st = (c\<lparr>co_tuples := co_tuples c @ ts\<rparr>, st)"

text \<open>
  Modelled from the spec: the class \<open>CSP\<close> of \<open>cspbase\<close>, absent from the sources, with
  references to its variables. \<open>add_var\<close>, \<open>add_room\<close> and \<open>add_constraint\<close> register
  their argument in call order and touch no variable object.
\<close>

record csp_obj =
  cs_name :: string
  cs_vars :: "ref list"
  cs_rooms :: "room list"
  cs_cons :: "constraint_obj list"

definition new_CSP :: "string \<Rightarrow> store \<Rightarrow> csp_obj \<times> store" where
  "new_CSP n st = (\<lparr>cs_name = n, cs_vars = [], cs_rooms = [], cs_cons = []\<rparr>, st)"

definition obj_add_var :: "ref \<Rightarrow> csp_obj \<times> store \<Rightarrow> csp_obj \<times> store" where
  "obj_add_var a cs = (case cs of (c, st) \<Rightarrow> (c\<lparr>cs_vars := cs_vars c @ [a]\<rparr>, st))"

definition obj_add_room :: "room \<Rightarrow> csp_obj \<times> store \<Rightarrow> csp_obj \<times> store" where
  "obj_add_room r cs = (case cs of (c, st) \<Rightarrow> (c\<lparr>cs_rooms := cs_rooms c @ [r]\<rparr>, st))"

definition obj_add_constraint :: "constraint_obj \<Rightarrow> csp_obj \<times> store \<Rightarrow> csp_obj \<times> store" where
  "obj_add_constraint k cs = (case cs of (c, st) \<Rightarrow> (c\<lparr>cs_cons := cs_cons c @ [k]\<rparr>, st))"

subsection \<open>make_variable\<close>

definition new_var_array_st :: "nat \<Rightarrow> nat \<Rightarrow> store \<Rightarrow> ref_grid \<times> store" where
  "new_var_array_st M N =
     mapS (\<lambda>i. mapS (\<lambda>j. new_Variable (''V'' @ string_of_nat i @ '','' @ string_of_nat j)) [0..<M])
       [0..<N]"

definition cell_step_st :: "board \<Rightarrow> nat \<Rightarrow> ref_grid \<Rightarrow> cell \<Rightarrow> store \<Rightarrow> error + store" where
  "cell_step_st board max_domain var_array c st =
     (case c of (i, j) \<Rightarrow>
       (case py_index var_array i of Inl e \<Rightarrow> Inl e | Inr row \<Rightarrow>
         (case py_index row j of Inl e \<Rightarrow> Inl e | Inr var \<Rightarrow>
           (let st1 = obj_add_domain_values var (pool max_domain) st in
             (case py_index board (i * 2) of Inl e \<Rightarrow> Inl e | Inr brow \<Rightarrow>
               (case py_index brow (j * 2) of Inl e \<Rightarrow> Inl e | Inr val \<Rightarrow>
                 Inr (if val \<noteq> PInt 0
                      then obj_set_domain var [val] (obj_assign var val st1)
                      else st1)))))))"

definition make_variable_st ::
  "board \<Rightarrow> room list \<Rightarrow> nat \<Rightarrow> nat \<Rightarrow> store \<Rightarrow> error + ref_grid \<times> store" where
  "make_variable_st board rooms M N st =
     (case new_var_array_st M N st of (var_array, st1) \<Rightarrow>
       (case foldE (\<lambda>room. foldE (cell_step_st board (length room) var_array) room) rooms st1
        of Inl e \<Rightarrow> Inl e | Inr st2 \<Rightarrow> Inr (var_array, st2)))"

subsection \<open>room_constraint\<close>

definition grid_ref :: "ref_grid \<Rightarrow> cell \<Rightarrow> error + ref" where
  "grid_ref var_array c =
     (case c of (i, j) \<Rightarrow>
       (case py_index var_array i of Inl e \<Rightarrow> Inl e | Inr row \<Rightarrow> py_index row j))"

fun remove_assigned_st ::
  "(nat \<times> ref) list \<Rightarrow> (nat \<times> pyval) list \<Rightarrow> pyval list \<Rightarrow> store \<Rightarrow>
     error + ((nat \<times> pyval) list \<times> pyval list) \<times> store" where
  "remove_assigned_st [] found it st = Inr ((found, it), st)"
| "remove_assigned_st ((i, var) # rest) found it st =
     (case obj_is_assigned var st of (b, st1) \<Rightarrow>
        if b then
          (case obj_get_assigned_value var st1 of (v1, st2) \<Rightarrow>
            (case obj_get_assigned_value var st2 of (v2, st3) \<Rightarrow>
              (case py_remove v2 it of Inl e \<Rightarrow> Inl e
               | Inr it' \<Rightarrow> remove_assigned_st rest (found @ [(i, v1)]) it' st3)))
        else remove_assigned_st rest found it st1)"

definition room_constraint_st ::
  "ref_grid \<Rightarrow> room \<Rightarrow> nat \<Rightarrow> store \<Rightarrow> error + constraint_obj \<times> store" where
  "room_constraint_st var_array room k st =
     (case mapE (grid_ref var_array) room of Inl e \<Rightarrow> Inl e | Inr sc \<Rightarrow>
       (case remove_assigned_st (enumerate_list sc) [] (pool (length room)) st of Inl e \<Rightarrow> Inl e
        | Inr ((found, it), st1) \<Rightarrow>
            (case new_Constraint (''C'' @ string_of_nat k) sc st1 of (c, st2) \<Rightarrow>
               Inr (obj_add_satisfying_tuples c (insert_found found (permutations it)) st2))))"

subsection \<open>space_constraint\<close>

definition make_constraint_st :: "ref \<Rightarrow> ref \<Rightarrow> store \<Rightarrow> constraint_obj \<times> store" where
  "make_constraint_st var1 var2 st =
     new_Constraint (''C-'' @ var_name (st ! var1) @ '':'' @ var_name (st ! var2)) [var1, var2] st"

definition dist_step_st ::
  "ref_grid \<Rightarrow> pyval list list list \<Rightarrow> nat \<times> nat \<Rightarrow> nat \<times> nat \<Rightarrow> nat \<Rightarrow> nat \<Rightarrow> nat \<Rightarrow>
     constraint_obj list \<times> store \<Rightarrow> error + constraint_obj list \<times> store" where
  "dist_step_st var_array tabs c1 c2 a b n s =
     (case s of (space_cons, st) \<Rightarrow>
       (if \<bar>int a - int b\<bar> = int n + 1 then
          (case grid_ref var_array (int (fst c1), int (snd c1)) of Inl e \<Rightarrow> Inl e | Inr var1 \<Rightarrow>
            (case grid_ref var_array (int (fst c2), int (snd c2)) of Inl e \<Rightarrow> Inl e | Inr var2 \<Rightarrow>
              (case make_constraint_st var1 var2 st of (con, st1) \<Rightarrow>
                (if n < length tabs
                 then (case obj_add_satisfying_tuples con (tabs ! n) st1 of (con', st2) \<Rightarrow>
                         Inr (space_cons @ [con'], st2))
                 else Inl IndexError))))
        else Inr (space_cons, st)))"

definition row_loop_st ::
  "ref_grid \<Rightarrow> pyval list list list \<Rightarrow> nat \<Rightarrow> nat \<Rightarrow> nat \<Rightarrow> constraint_obj list \<times> store \<Rightarrow>
     error + constraint_obj list \<times> store" where
  "row_loop_st var_array tabs max_rsize M N =
     foldE (\<lambda>i. foldE (\<lambda>(a, b). foldE (dist_step_st var_array tabs (i, a) (i, b) a b)
                                    [0..<max_rsize])
                  (List.product [0..<M] [0..<M]))
       [0..<N]"

definition col_loop_st ::
  "ref_grid \<Rightarrow> pyval list list list \<Rightarrow> nat \<Rightarrow> nat \<Rightarrow> nat \<Rightarrow> constraint_obj list \<times> store \<Rightarrow>
     error + constraint_obj list \<times> store" where
  "col_loop_st var_array tabs max_rsize M N =
     foldE (\<lambda>i. foldE (\<lambda>(a, b). foldE (dist_step_st var_array tabs (a, i) (b, i) a b)
                                    [0..<max_rsize])
                  (List.product [0..<N] [0..<N]))
       [0..<M]"

definition space_constraint_st ::
  "ref_grid \<Rightarrow> nat \<Rightarrow> nat \<Rightarrow> nat \<Rightarrow> store \<Rightarrow> error + constraint_obj list \<times> store" where
  "space_constraint_st var_array max_rsize M N st =
     (case n_dist_tuples max_rsize of Inl e \<Rightarrow> Inl e | Inr tabs \<Rightarrow>
       (case row_loop_st var_array tabs max_rsize M N ([], st) of Inl e \<Rightarrow> Inl e
        | Inr s \<Rightarrow> col_loop_st var_array tabs max_rsize M N s))"

subsection \<open>ripple_effect_csp_model\<close>

definition ripple_effect_csp_model_st ::
  "board \<Rightarrow> room list \<Rightarrow> store \<Rightarrow> error + csp_obj \<times> ref_grid \<times> store" where
  "ripple_effect_csp_model_st initial_RP_board rooms st =
     (case py_index initial_RP_board 0 of Inl e \<Rightarrow> Inl e | Inr row0 \<Rightarrow>
       (let M = (length row0 + 1) div 2; N = (length initial_RP_board + 1) div 2 in
         (case make_variable_st initial_RP_board rooms M N st of Inl e \<Rightarrow> Inl e
          | Inr (var_array, st1) \<Rightarrow>
           (case mapES (\<lambda>(k, room). room_constraint_st var_array room (k + 1))
                   (enumerate_list rooms) st1
            of Inl e \<Rightarrow> Inl e | Inr (room_cons, st2) \<Rightarrow>
             (case py_max (map length rooms) of Inl e \<Rightarrow> Inl e | Inr max_rsize \<Rightarrow>
               (case space_constraint_st var_array max_rsize M N st2 of Inl e \<Rightarrow> Inl e
                | Inr (space_cons, st3) \<Rightarrow>
                   (case fold obj_add_constraint space_cons
                           (fold obj_add_constraint room_cons
                             (fold obj_add_room rooms
                               (fold (\<lambda>row. fold obj_add_var row) var_array
                                 (new_CSP ''Ripple_Effect'' st3))))
                    of (model, st4) \<Rightarrow> Inr (model, var_array, st4))))))))"

subsection \<open>Reading the references\<close>

text \<open>
  The value of a grid, a constraint, a model and a result of the builder in a store:
  every reference is replaced by the object it points to. Two results with the same
  value are structurally identical: the same variables with the same names, domains and
  assignments at the same places, and the same constraints in the same order.
\<close>

definition view :: "store \<Rightarrow> ref_grid \<Rightarrow> grid" where
  "view st var_array = map (map (nth st)) var_array"

definition view_con :: "store \<Rightarrow> constraint_obj \<Rightarrow> constraint" where
  "view_con st c = \<lparr>con_name = co_name c, scope = map (nth st) (co_scope c), sat_tuples = co_tuples c\<rparr>"

definition view_csp :: "store \<Rightarrow> csp_obj \<Rightarrow> csp" where
  "view_csp st c =
     \<lparr>csp_name = cs_name c, vars = map (nth st) (cs_vars c), rooms_of = cs_rooms c,
      cons = map (view_con st) (cs_cons c)\<rparr>"

definition view_result :: "error + csp_obj \<times> ref_grid \<times> store \<Rightarrow> error + csp \<times> grid" where
  "view_result r =
     (case r of Inl e \<Rightarrow> Inl e
      | Inr (model, var_array, st) \<Rightarrow> Inr (view_csp st model, view st var_array))"

section \<open>Conditions on the input\<close>

text \<open>
  The conditions under which the claims are stated. A cell is inside a grid of \<open>N\<close> rows
  and \<open>M\<close> columns when both coordinates are in range without wrapping; a grid has
  \<open>N\<close> rows of \<open>M\<close> variables; a board for \<open>N\<close> by \<open>M\<close> cells has \<open>2N - 1\<close> rows of
  \<open>2M - 1\<close> entries. \<open>clue_at\<close> is the board entry \<open>board[2i][2j]\<close> of a cell inside the
  grid, and the clues of a room are consistent when its non-zero entries are pairwise
  different values of \<open>1..k\<close>, \<open>k\<close> the size of the room.
\<close>

definition in_grid :: "nat \<Rightarrow> nat \<Rightarrow> cell \<Rightarrow> bool" where
  "in_grid N M c = (case c of (i, j) \<Rightarrow> 0 \<le> i \<and> i < int N \<and> 0 \<le> j \<and> j < int M)"

definition rooms_in_grid :: "nat \<Rightarrow> nat \<Rightarrow> room list \<Rightarrow> bool" where
  "rooms_in_grid N M rooms = list_all (list_all (in_grid N M)) rooms"

definition grid_dims :: "grid \<Rightarrow> nat \<Rightarrow> nat \<Rightarrow> bool" where
  "grid_dims g N M = (length g = N \<and> list_all (\<lambda>row. length row = M) g)"

definition board_ok :: "board \<Rightarrow> nat \<Rightarrow> nat \<Rightarrow> bool" where
  "board_ok b N M =
     (0 < N \<and> 0 < M \<and> length b = 2 * N - 1 \<and> list_all (\<lambda>row. length row = 2 * M - 1) b)"

definition clue_at :: "board \<Rightarrow> cell \<Rightarrow> pyval" where
  "clue_at b c = (case c of (i, j) \<Rightarrow> b ! nat (i * 2) ! nat (j * 2))"

definition clues_ok :: "board \<Rightarrow> room \<Rightarrow> bool" where
  "clues_ok b room =
     (distinct (filter (\<lambda>v. v \<noteq> PInt 0) (map (clue_at b) room)) \<and>
      list_all (\<lambda>v. v \<in> set (pool (length room)))
        (filter (\<lambda>v. v \<noteq> PInt 0) (map (clue_at b) room)))"

section \<open>The spatial constraints as the specification lists them\<close>

text \<open>
  The specification's description of the result of \<open>space_constraint\<close>, to compare
  with the loops of the source: the distance of two indices; for an axis of length \<open>L\<close>
  the ordered pairs of indices at a distance between \<open>1\<close> and \<open>R\<close>; the ordered pairs
  of cells of every row, then of every column; and the constraint of a pair of cells,
  with the two variables as scope and the table of the pair's distance.
\<close>

definition dist :: "nat \<Rightarrow> nat \<Rightarrow> nat" where
  "dist a b = nat \<bar>int a - int b\<bar>"

definition axis_pairs :: "nat \<Rightarrow> nat \<Rightarrow> (nat \<times> nat) list" where
  "axis_pairs R L =
     filter (\<lambda>(a, b). 1 \<le> dist a b \<and> dist a b \<le> R) (List.product [0..<L] [0..<L])"

definition row_pairs :: "nat \<Rightarrow> nat \<Rightarrow> nat \<Rightarrow> ((nat \<times> nat) \<times> (nat \<times> nat)) list" where
  "row_pairs R M N = concat (map (\<lambda>i. map (\<lambda>(a, b). ((i, a), (i, b))) (axis_pairs R M)) [0..<N])"

definition col_pairs :: "nat \<Rightarrow> nat \<Rightarrow> nat \<Rightarrow> ((nat \<times> nat) \<times> (nat \<times> nat)) list" where
  "col_pairs R M N = concat (map (\<lambda>i. map (\<lambda>(a, b). ((a, i), (b, i))) (axis_pairs R N)) [0..<M])"

definition space_con :: "grid \<Rightarrow> pyval list list list \<Rightarrow> (nat \<times> nat) \<times> (nat \<times> nat) \<Rightarrow> constraint" where
  "space_con va tabs pq =
     (case pq of ((r1, c1), (r2, c2)) \<Rightarrow>
        add_satisfying_tuples (make_constraint (va ! r1 ! c1) (va ! r2 ! c2))
          (tabs ! (dist r1 r2 + dist c1 c2 - 1)))"

section \<open>Auxiliary functions of the proofs\<close>

text \<open>
  For \<open>room_constraint\<close>: the values of the assigned variables of a scope, in scope
  order; the list \<open>found\<close> that the removal loop builds from position \<open>n\<close> on; a tuple
  of values for the free positions merged with the assigned values (\<open>weave\<close>) and its
  inverse; the number of free positions.
\<close>

definition fixed_values :: "variable list \<Rightarrow> pyval list" where
  "fixed_values sc = List.map_filter assignedValue sc"

fun found_from :: "nat \<Rightarrow> variable list \<Rightarrow> (nat \<times> pyval) list" where
  "found_from n [] = []"
| "found_from n (var # sc) =
     (case assignedValue var of None \<Rightarrow> found_from (Suc n) sc
      | Some v \<Rightarrow> (n, v) # found_from (Suc n) sc)"

fun weave :: "variable list \<Rightarrow> pyval list \<Rightarrow> pyval list" where
  "weave [] t = t"
| "weave (var # sc) t =
     (case assignedValue var of
        Some v \<Rightarrow> v # weave sc t
      | None \<Rightarrow> (case t of [] \<Rightarrow> weave sc [] | x # t' \<Rightarrow> x # weave sc t'))"

fun unweave :: "variable list \<Rightarrow> pyval list \<Rightarrow> pyval list" where
  "unweave [] u = u"
| "unweave (var # sc) [] = []"
| "unweave (var # sc) (x # u) =
     (case assignedValue var of Some v \<Rightarrow> unweave sc u | None \<Rightarrow> x # unweave sc u)"

definition nfree :: "variable list \<Rightarrow> nat" where
  "nfree sc = length (filter (\<lambda>var. \<not> is_assigned var) sc)"

text \<open>
  For \<open>make_variable\<close>: what the loop body does to the variable of a cell, and the
  loop body and the loop over a room when no index is out of range.
\<close>

definition clue_update :: "nat \<Rightarrow> pyval \<Rightarrow> variable \<Rightarrow> variable" where
  "clue_update k val var =
     (if val \<noteq> PInt 0
      then (assign (add_domain_values var (pool k)) val)\<lparr>domain := [val]\<rparr>
      else add_domain_values var (pool k))"

definition cell_pure :: "board \<Rightarrow> nat \<Rightarrow> cell \<Rightarrow> grid \<Rightarrow> grid" where
  "cell_pure b k c g =
     grid_set g (nat (fst c)) (nat (snd c))
       (clue_update k (clue_at b c) (g ! nat (fst c) ! nat (snd c)))"

definition room_pure :: "board \<Rightarrow> room \<Rightarrow> grid \<Rightarrow> grid" where
  "room_pure b room g = fold (cell_pure b (length room)) room g"

text \<open>
  For \<open>space_constraint\<close>: the full product table, the equal pairs removed for
  index \<open>n\<close>, and the table that remains; and the property that every scope of a list
  of constraints holds variables of a grid.
\<close>

definition full_table :: "nat \<Rightarrow> pyval list list" where
  "full_table R = product2 (py_range 1 (R + 1))"

definition diag :: "nat \<Rightarrow> nat \<Rightarrow> pyval list list" where
  "diag R n = map (\<lambda>(a, b). [a, b]) (zip (py_range (n + 1) (R + 1)) (py_range (n + 1) (R + 1)))"

definition dist_table :: "nat \<Rightarrow> nat \<Rightarrow> pyval list list" where
  "dist_table R n = fold remove1 (diag R n) (full_table R)"

definition scopes_in :: "grid \<Rightarrow> constraint list \<Rightarrow> bool" where
  "scopes_in g cs = list_all (\<lambda>c. set (scope c) \<subseteq> set (concat g)) cs"

text \<open>
  For the index range of \<open>make_variable\<close>: the coordinates that Python's indexing
  resolves on both the grid and a well-formed board, and the position a resolved index
  reads.
\<close>

definition in_reach :: "nat \<Rightarrow> nat \<Rightarrow> cell \<Rightarrow> bool" where
  "in_reach N M c = (case c of (i, j) \<Rightarrow> - int N < i \<and> i < int N \<and> - int M < j \<and> j < int M)"

definition wrap :: "nat \<Rightarrow> int \<Rightarrow> nat" where
  "wrap n i = (if i < 0 then nat (int n + i) else nat i)"

text \<open>
  For the correspondence of the builder over the store with the builder on values: the
  image of a result, the invariant of a grid of references (distinct addresses, all
  allocated), and the invariant of the loops of \<open>space_constraint\<close>.
\<close>

definition map_result :: "('a \<Rightarrow> 'b) \<Rightarrow> error + 'a \<Rightarrow> error + 'b" where
  "map_result f r = (case r of Inl e \<Rightarrow> Inl e | Inr x \<Rightarrow> Inr (f x))"

definition refs_ok :: "ref_grid \<Rightarrow> store \<Rightarrow> bool" where
  "refs_ok rg st = (distinct (concat rg) \<and> list_all (\<lambda>a. a < length st) (concat rg))"

definition same_store :: "store \<Rightarrow> constraint_obj list \<times> store \<Rightarrow> bool" where
  "same_store st s = (snd s = st)"

section \<open>Properties\<close>

lemma picks_fst: "map fst (picks xs) = xs"
  by (induction xs) (auto simp: case_prod_unfold comp_def)

lemma picks_mset: "(y, ys) \<in> set (picks xs) \<Longrightarrow> mset xs = add_mset y (mset ys)"
  by (induction xs arbitrary: y ys) auto

lemma picks_Suc_length: "(y, ys) \<in> set (picks xs) \<Longrightarrow> Suc (length ys) = length xs"
  by (induction xs arbitrary: y ys) auto

lemma picks_distinct: "(y, ys) \<in> set (picks xs) \<Longrightarrow> distinct xs \<Longrightarrow> distinct ys"
  using picks_mset[of y ys xs]
  by (metis mset_eq_imp_distinct_iff distinct.simps(2) mset.simps(2))

lemma picks_ex: "y \<in> set xs \<Longrightarrow> \<exists>ys. (y, ys) \<in> set (picks xs)"
  by (metis picks_fst image_iff set_map prod.collapse)

lemma length_picks: "length (picks xs) = length xs"
  by (metis picks_fst length_map)


lemma sum_list_const_on: "(\<And>x. x \<in> set xs \<Longrightarrow> f x = c) \<Longrightarrow> sum_list (map f xs) = length xs * (c::nat)"
  by (induction xs) auto

lemma permutations_length: "length (permutations xs) = fact (length xs)"
proof (induction xs rule: permutations.induct)
  case 1
  show ?case by simp
next
  case (2 x xs)
  have *: "length (case p of (y, ys) \<Rightarrow> map ((#) y) (permutations ys)) = fact (length xs)"
    if "p \<in> set (picks (x # xs))" for p
  proof -
    obtain y ys where p: "p = (y, ys)" by (cases p)
    from that p have m: "(y, ys) \<in> set (picks (x # xs))" by simp
    from picks_Suc_length[OF m] have "length ys = length xs" by simp
    with "2.IH"[OF m refl] show ?thesis by (simp add: p)
  qed
  have "length (permutations (x # xs)) =
          sum_list (map (\<lambda>p. length (case p of (y, ys) \<Rightarrow> map ((#) y) (permutations ys))) (picks (x # xs)))"
    by (simp only: permutations.simps length_concat map_map comp_def)
  also have "\<dots> = length (picks (x # xs)) * fact (length xs)"
    by (rule sum_list_const_on) (rule *)
  finally show ?case by (simp only: length_picks fact_Suc list.size) simp
qed


lemma permutations_mset: "t \<in> set (permutations xs) \<Longrightarrow> mset t = mset xs"
proof (induction xs arbitrary: t rule: permutations.induct)
  case 1
  then show ?case by simp
next
  case (2 x xs)
  then obtain y ys t' where p: "(y, ys) \<in> set (picks (x # xs))" and t: "t = y # t'"
    and t': "t' \<in> set (permutations ys)"
    by (auto simp del: picks.simps)
  from "2.IH"[OF p refl t'] picks_mset[OF p] t show ?case by simp
qed

lemma mset_permutations: "mset t = mset xs \<Longrightarrow> t \<in> set (permutations xs)"
proof (induction t arbitrary: xs)
  case Nil
  then show ?case by simp
next
  case (Cons y t)
  then have "y \<in> set xs"
    by (metis list.set_intros(1) mset_eq_setD)
  then obtain ys where p: "(y, ys) \<in> set (picks xs)" using picks_ex by metis
  with Cons.prems picks_mset[OF p] have "mset t = mset ys" by simp
  then have "t \<in> set (permutations ys)" by (rule Cons.IH)
  moreover from p obtain x xs' where "xs = x # xs'" by (cases xs) auto
  ultimately show ?case using p by (auto simp del: picks.simps intro!: bexI[of _ "(y, ys)"])
qed

lemma permutations_set: "set (permutations xs) = {t. mset t = mset xs}"
  using permutations_mset mset_permutations by blast

lemma distinct_concat_heads:
  "distinct (map fst ps) \<Longrightarrow> (\<And>y ys. (y, ys) \<in> set ps \<Longrightarrow> distinct (P ys)) \<Longrightarrow>
   distinct (concat (map (\<lambda>(y, ys). map ((#) y) (P ys)) ps))"
proof (induction ps)
  case Nil
  then show ?case by simp
next
  case (Cons p ps)
  obtain y ys where [simp]: "p = (y, ys)" by (cases p)
  have "distinct (map ((#) y) (P ys))"
    using Cons.prems(2)[of y ys] by (simp add: distinct_map)
  moreover have "distinct (concat (map (\<lambda>(y, ys). map ((#) y) (P ys)) ps))"
    using Cons by auto
  moreover have "set (map ((#) y) (P ys)) \<inter> set (concat (map (\<lambda>(y, ys). map ((#) y) (P ys)) ps)) = {}"
    using Cons.prems(1) by (auto simp: image_iff)
  ultimately show ?case by simp
qed

lemma permutations_distinct: "distinct xs \<Longrightarrow> distinct (permutations xs)"
proof (induction xs rule: permutations.induct)
  case 1
  show ?case by simp
next
  case (2 x xs)
  show ?case
    unfolding permutations.simps
  proof (rule distinct_concat_heads)
    show "distinct (map fst (picks (x # xs)))" using "2.prems" by (simp only: picks_fst)
  next
    fix y ys assume p: "(y, ys) \<in> set (picks (x # xs))"
    then show "distinct (permutations ys)"
      using "2.IH"[OF p refl] picks_distinct[OF p "2.prems"] by simp
  qed
qed


lemma fixed_values_Nil [simp]: "fixed_values [] = []"
  by (simp add: fixed_values_def map_filter_simps)

lemma fixed_values_Cons:
  "fixed_values (var # sc) =
     (case assignedValue var of None \<Rightarrow> fixed_values sc | Some v \<Rightarrow> v # fixed_values sc)"
  by (simp add: fixed_values_def map_filter_simps split: option.splits)

lemma nfree_Nil [simp]: "nfree [] = 0"
  by (simp add: nfree_def)

lemma nfree_Cons:
  "nfree (var # sc) = (case assignedValue var of None \<Rightarrow> Suc (nfree sc) | Some v \<Rightarrow> nfree sc)"
  by (simp add: nfree_def is_assigned_def split: option.splits)

lemma nfree_plus_fixed: "nfree sc + length (fixed_values sc) = length sc"
  by (induction sc) (auto simp: nfree_Cons fixed_values_Cons split: option.splits)

lemma length_fixed_values: "length (fixed_values sc) = length (filter is_assigned sc)"
  by (induction sc) (auto simp: fixed_values_Cons is_assigned_def split: option.splits)

lemma zip_upt_Cons:
  "zip [n..<n + length (x # xs)] (x # xs) = (n, x) # zip [Suc n..<Suc n + length xs] xs"
  by (simp add: upt_rec[of n] del: upt_Suc)

lemma remove_assigned_Inr:
  "remove_assigned (zip [n..<n + length sc] sc) found it = Inr (fd, it') \<Longrightarrow>
     fd = found @ found_from n sc \<and> mset it = mset it' + mset (fixed_values sc)"
proof (induction sc arbitrary: n found it)
  case Nil
  then show ?case by simp
next
  case (Cons var sc)
  show ?case
  proof (cases "assignedValue var")
    case None
    with Cons.prems have "remove_assigned (zip [Suc n..<Suc n + length sc] sc) found it = Inr (fd, it')"
      by (simp only: zip_upt_Cons remove_assigned.simps option.case)
    from Cons.IH[OF this] None show ?thesis by (simp add: fixed_values_Cons)
  next
    case (Some v)
    with Cons.prems have v: "v \<in> set it"
      and r: "remove_assigned (zip [Suc n..<Suc n + length sc] sc) (found @ [(n, v)]) (remove1 v it) = Inr (fd, it')"
      by (simp_all only: zip_upt_Cons remove_assigned.simps option.case py_remove_def split: if_splits sum.splits) auto
    from v have "add_mset v (mset it - {#v#}) = mset it" by simp
    with Cons.IH[OF r] Some show ?thesis by (simp add: fixed_values_Cons)
  qed
qed

lemma remove_assigned_Inl:
  "remove_assigned es found it = Inl e \<Longrightarrow> e = ValueError"
  by (induction es found it rule: remove_assigned.induct)
     (auto simp: py_remove_def split: option.splits if_splits sum.splits)

lemma remove_assigned_ok:
  "mset (fixed_values sc) \<subseteq># mset it \<Longrightarrow>
     \<exists>it'. remove_assigned (zip [n..<n + length sc] sc) found it = Inr (found @ found_from n sc, it')"
proof (induction sc arbitrary: n found it)
  case Nil
  then show ?case by simp
next
  case (Cons var sc)
  show ?case
  proof (cases "assignedValue var")
    case None
    with Cons.prems have "mset (fixed_values sc) \<subseteq># mset it" by (simp add: fixed_values_Cons)
    from Cons.IH[OF this, of "Suc n" found] None show ?thesis
      by (simp only: zip_upt_Cons remove_assigned.simps option.case found_from.simps)
  next
    case (Some v)
    with Cons.prems have s: "add_mset v (mset (fixed_values sc)) \<subseteq># mset it"
      by (simp add: fixed_values_Cons)
    then have v: "v \<in> set it"
      by (metis insert_subset_eq_iff set_mset_mset)
    from s have "mset (fixed_values sc) \<subseteq># mset (remove1 v it)"
      by (simp add: insert_subset_eq_iff)
    from Cons.IH[OF this, of "Suc n" "found @ [(n, v)]"] Some v show ?thesis
      by (simp only: zip_upt_Cons remove_assigned.simps option.case found_from.simps py_remove_def) simp
  qed
qed

lemma fold_insert_weave:
  "nfree sc \<le> length t \<Longrightarrow>
     fold (\<lambda>(i, val). py_insert i val) (found_from (length pre) sc) (pre @ t) = pre @ weave sc t"
proof (induction sc arbitrary: pre t)
  case Nil
  then show ?case by simp
next
  case (Cons var sc)
  show ?case
  proof (cases "assignedValue var")
    case None
    with Cons.prems obtain x t' where t: "t = x # t'" and l: "nfree sc \<le> length t'"
      by (cases t) (auto simp: nfree_Cons)
    from Cons.IH[OF l, of "pre @ [x]"] None t show ?thesis by simp
  next
    case (Some v)
    with Cons.prems have l: "nfree sc \<le> length t" by (simp add: nfree_Cons)
    from Cons.IH[OF l, of "pre @ [v]"] Some show ?thesis by (simp add: py_insert_def)
  qed
qed

lemma insert_found_map:
  "insert_found found tups = map (fold (\<lambda>(i, val). py_insert i val) found) tups"
  unfolding insert_found_def
  by (induction found arbitrary: tups) (auto simp: case_prod_unfold)

lemma insert_found_weave:
  assumes "\<And>t. t \<in> set tups \<Longrightarrow> length t = nfree sc"
  shows "insert_found (found_from 0 sc) tups = map (weave sc) tups"
proof -
  have "fold (\<lambda>(i, val). py_insert i val) (found_from 0 sc) t = weave sc t" if "t \<in> set tups" for t
    using fold_insert_weave[of sc t "[]"] assms[OF that] by simp
  then show ?thesis by (simp add: insert_found_map)
qed

lemma weave_length: "length t = nfree sc \<Longrightarrow> length (weave sc t) = length sc"
  by (induction sc arbitrary: t) (auto simp: nfree_Cons split: option.splits list.splits)

lemma weave_mset: "mset (weave sc t) = mset t + mset (fixed_values sc)"
  by (induction sc arbitrary: t) (auto simp: fixed_values_Cons split: option.splits list.splits)

lemma weave_fixed:
  "nfree sc \<le> length t \<Longrightarrow> i < length sc \<Longrightarrow> assignedValue (sc ! i) = Some v \<Longrightarrow>
     weave sc t ! i = v"
proof (induction sc arbitrary: t i)
  case Nil
  then show ?case by simp
next
  case (Cons var sc)
  then show ?case by (cases i) (auto simp: nfree_Cons split: option.splits list.splits)
qed

lemma unweave_weave: "length t = nfree sc \<Longrightarrow> unweave sc (weave sc t) = t"
  by (induction sc arbitrary: t) (auto simp: nfree_Cons split: option.splits list.splits)

lemma weave_unweave:
  "length u = length sc \<Longrightarrow> (\<And>i v. i < length sc \<Longrightarrow> assignedValue (sc ! i) = Some v \<Longrightarrow> u ! i = v) \<Longrightarrow>
     weave sc (unweave sc u) = u"
proof (induction sc arbitrary: u)
  case Nil
  then show ?case by simp
next
  case (Cons var sc)
  then obtain x u' where u: "u = x # u'" and l: "length u' = length sc" by (cases u) auto
  have "weave sc (unweave sc u') = u'"
  proof (rule Cons.IH[OF l])
    fix i v assume "i < length sc" "assignedValue (sc ! i) = Some v"
    then show "u' ! i = v" using Cons.prems(2)[of "Suc i" v] u by simp
  qed
  moreover have "assignedValue var = Some v \<Longrightarrow> x = v" for v
    using Cons.prems(2)[of 0 v] u by simp
  ultimately show ?case using u by (auto split: option.splits)
qed

lemma unweave_length: "length u = length sc \<Longrightarrow> length (unweave sc u) = nfree sc"
proof (induction sc arbitrary: u)
  case Nil
  then show ?case by simp
next
  case (Cons var sc)
  then show ?case by (cases u) (auto simp: nfree_Cons split: option.splits)
qed

lemma weave_inj_on: "inj_on (weave sc) {t. length t = nfree sc}"
  by (rule inj_on_inverseI[where g = "unweave sc"]) (simp add: unweave_weave)


lemma mapE_length: "mapE f xs = Inr ys \<Longrightarrow> length ys = length xs"
  by (induction xs arbitrary: ys) (auto split: sum.splits)

lemma mapE_nth: "mapE f xs = Inr ys \<Longrightarrow> i < length xs \<Longrightarrow> f (xs ! i) = Inr (ys ! i)"
proof (induction xs arbitrary: ys i)
  case Nil
  then show ?case by simp
next
  case (Cons x xs)
  then show ?case by (cases i) (auto split: sum.splits)
qed

lemma pool_length [simp]: "length (pool k) = k"
  by (simp add: pool_def)

lemma pool_distinct: "distinct (pool k)"
  by (simp add: pool_def distinct_map inj_on_def)

lemma pool_set: "set (pool k) = PInt ` {1..int k}"
proof -
  have "(\<lambda>n. int n + 1) ` {0..<k} = {1..int k}"
  proof (intro equalityI subsetI)
    fix x assume "x \<in> {1..int k}"
    then have "x = int (nat (x - 1)) + 1" "nat (x - 1) \<in> {0..<k}" by auto
    then show "x \<in> (\<lambda>n. int n + 1) ` {0..<k}" by (rule image_eqI)
  qed auto
  then have "PInt ` ((\<lambda>n. int n + 1) ` {0..<k}) = PInt ` {1..int k}" by simp
  then show ?thesis by (simp add: pool_def image_image)
qed

lemma distinct_subset_mset:
  assumes "distinct xs" and "set xs \<subseteq> set ys"
  shows "mset xs \<subseteq># mset ys"
proof (rule mset_subset_eqI)
  fix a
  show "count (mset xs) a \<le> count (mset ys) a"
  proof (cases "a \<in> set xs")
    case True
    with assms(1) have "count (mset xs) a = 1" by (simp add: distinct_count_atmost_1)
    moreover from True assms(2) have "a \<in># mset ys" by auto
    then have "1 \<le> count (mset ys) a" by (simp add: Suc_le_eq)
    ultimately show ?thesis by simp
  next
    case False
    then have "a \<notin># mset xs" by simp
    then have "count (mset xs) a = 0" by (simp only: not_in_iff)
    then show ?thesis by (simp only: le0)
  qed
qed

lemma mset_append_distinct:
  assumes "mset ys = mset xs + mset zs" and "distinct ys"
  shows "distinct xs"
proof -
  from assms(1) have "mset ys = mset (xs @ zs)" by simp
  then have "distinct ys = distinct (xs @ zs)" by (rule mset_eq_imp_distinct_iff)
  with assms(2) show ?thesis by simp
qed

lemma room_constraint_result:
  assumes sc: "mapE (grid_get va) room = Inr sc"
    and d: "distinct (fixed_values sc)"
    and r: "set (fixed_values sc) \<subseteq> set (pool (length room))"
  shows "\<exists>it'. room_constraint va room k =
           Inr \<lparr>con_name = ''C'' @ string_of_nat k, scope = sc,
                sat_tuples = map (weave sc) (permutations it')\<rparr> \<and>
           mset (pool (length room)) = mset it' + mset (fixed_values sc)"
proof -
  have "mset (fixed_values sc) \<subseteq># mset (pool (length room))"
    using d r by (rule distinct_subset_mset)
  from remove_assigned_ok[OF this, of 0 "[]"] obtain it' where
    ra: "remove_assigned (enumerate_list sc) [] (pool (length room)) = Inr (found_from 0 sc, it')"
    by (auto simp: enumerate_list_def)
  from remove_assigned_Inr[of 0 sc "[]" "pool (length room)" "found_from 0 sc" it'] ra
  have m: "mset (pool (length room)) = mset it' + mset (fixed_values sc)"
    by (simp add: enumerate_list_def)
  then have "size (mset (pool (length room))) = size (mset it') + size (mset (fixed_values sc))"
    by simp
  then have "length room = length it' + length (fixed_values sc)" by simp
  moreover have "length sc = length room" using sc by (rule mapE_length)
  ultimately have n: "length it' = nfree sc" using nfree_plus_fixed[of sc] by simp
  have "insert_found (found_from 0 sc) (permutations it') = map (weave sc) (permutations it')"
  proof (rule insert_found_weave)
    fix t assume "t \<in> set (permutations it')"
    then have "mset t = mset it'" by (rule permutations_mset)
    then have "length t = length it'" by (rule mset_eq_length)
    with n show "length t = nfree sc" by simp
  qed
  with ra sc have "room_constraint va room k =
           Inr \<lparr>con_name = ''C'' @ string_of_nat k, scope = sc,
                sat_tuples = map (weave sc) (permutations it')\<rparr>"
    by (simp add: room_constraint_def Constraint_def add_satisfying_tuples_def)
  with m show ?thesis by blast
qed

lemma pool_upto: "pool k = map PInt [1..int k]"
proof (induction k)
  case 0
  show ?case by (simp add: pool_def)
next
  case (Suc k)
  have "[1..int (Suc k)] = [1..int k] @ [int k + 1]"
    using upto_rec2[of 1 "int k + 1"] by (simp add: add.commute)
  with Suc show ?case by (simp add: pool_def)
qed

text \<open>
  C1. For a room of size \<open>k\<close> whose scope resolves and whose \<open>f\<close> assigned variables hold
  pairwise different values in \<open>1..k\<close>, \<open>room_constraint\<close> returns a constraint over
  that scope whose table has exactly \<open>(k - f)!\<close> tuples, without repetition, and is
  exactly the set of permutations of \<open>1..k\<close> that carry every assigned value at its scope
  position. With no assigned variable this is the set of all \<open>k!\<close> permutations.
\<close>

theorem room_constraint_table:
  assumes "mapE (grid_get var_array) room = Inr sc"
    and "distinct (fixed_values sc)"
    and "set (fixed_values sc) \<subseteq> PInt ` {1..int (length room)}"
  shows "\<exists>c. room_constraint var_array room n = Inr c \<and> scope c = sc \<and>
           length (sat_tuples c) = fact (length room - length (filter is_assigned sc)) \<and>
           distinct (sat_tuples c) \<and>
           set (sat_tuples c) =
             {t. mset t = mset (map PInt [1..int (length room)]) \<and>
                 (\<forall>i<length room. \<forall>v. assignedValue (sc ! i) = Some v \<longrightarrow> t ! i = v)}"
proof -
  let ?k = "length room"
  from assms(3) have r: "set (fixed_values sc) \<subseteq> set (pool ?k)" by (simp add: pool_set)
  from room_constraint_result[OF assms(1,2) r, of n] obtain it' where
    rc: "room_constraint var_array room n =
           Inr \<lparr>con_name = ''C'' @ string_of_nat n, scope = sc,
                sat_tuples = map (weave sc) (permutations it')\<rparr>"
    and m: "mset (pool ?k) = mset it' + mset (fixed_values sc)"
    by blast
  have lsc: "length sc = ?k" using assms(1) by (rule mapE_length)
  from m have "size (mset (pool ?k)) = size (mset it') + size (mset (fixed_values sc))" by simp
  then have li: "length it' = ?k - length (filter is_assigned sc)"
    by (simp add: length_fixed_values)
  from li have n: "length it' = nfree sc"
    using nfree_plus_fixed[of sc] lsc by (simp add: length_fixed_values)
  have perm_len: "length t = nfree sc" if "t \<in> set (permutations it')" for t
    using permutations_mset[OF that] mset_eq_length[of t it'] n by simp
  have di: "distinct it'" using m pool_distinct by (rule mset_append_distinct)
  have dist: "distinct (map (weave sc) (permutations it'))"
  proof (subst distinct_map, intro conjI)
    show "distinct (permutations it')" using di by (rule permutations_distinct)
    show "inj_on (weave sc) (set (permutations it'))"
      by (rule inj_on_subset[OF weave_inj_on]) (auto simp: perm_len)
  qed
  have set_eq: "set (map (weave sc) (permutations it')) =
      {t. mset t = mset (pool ?k) \<and>
          (\<forall>i<?k. \<forall>v. assignedValue (sc ! i) = Some v \<longrightarrow> t ! i = v)}" (is "?L = ?R")
  proof (intro equalityI subsetI)
    fix u assume "u \<in> ?L"
    then obtain t where t: "t \<in> set (permutations it')" and u: "u = weave sc t" by auto
    from permutations_mset[OF t] m have "mset u = mset (pool ?k)" by (simp add: u weave_mset)
    moreover have "u ! i = v" if "i < ?k" "assignedValue (sc ! i) = Some v" for i v
      using weave_fixed[of sc t i v] perm_len[OF t] that lsc by (simp add: u)
    ultimately show "u \<in> ?R" by blast
  next
    fix u assume "u \<in> ?R"
    then have mu: "mset u = mset (pool ?k)"
      and fx: "\<And>i v. i < length sc \<Longrightarrow> assignedValue (sc ! i) = Some v \<Longrightarrow> u ! i = v"
      using lsc by auto
    from mu have lu: "length u = length sc" using mset_eq_length[of u "pool ?k"] lsc by simp
    have wu: "weave sc (unweave sc u) = u" using lu fx by (rule weave_unweave)
    have "mset u = mset (unweave sc u) + mset (fixed_values sc)"
      using weave_mset[of sc "unweave sc u"] wu by simp
    with mu m have "mset (unweave sc u) = mset it'" by simp
    then have "unweave sc u \<in> set (permutations it')" by (rule mset_permutations)
    with wu show "u \<in> ?L" by (metis image_eqI set_map)
  qed
  show ?thesis
    using rc li dist set_eq by (simp add: permutations_length pool_upto)
qed

theorem room_constraint_table_witness:
  "mapE (grid_get [[Variable ''V0,0'', \<lparr>var_name = ''V0,1'', domain = [PInt 2], assignedValue = Some (PInt 2)\<rparr>, Variable ''V0,2'']]) [(0, 0), (0, 1), (0, 2)] =
     Inr [Variable ''V0,0'', \<lparr>var_name = ''V0,1'', domain = [PInt 2], assignedValue = Some (PInt 2)\<rparr>, Variable ''V0,2''] \<and>
   distinct (fixed_values [Variable ''V0,0'', \<lparr>var_name = ''V0,1'', domain = [PInt 2], assignedValue = Some (PInt 2)\<rparr>, Variable ''V0,2'']) \<and>
   set (fixed_values [Variable ''V0,0'', \<lparr>var_name = ''V0,1'', domain = [PInt 2], assignedValue = Some (PInt 2)\<rparr>, Variable ''V0,2''])
     \<subseteq> PInt ` {1..int (length ([(0, 0), (0, 1), (0, 2)] :: room))} \<and>
   (\<exists>c. room_constraint [[Variable ''V0,0'', \<lparr>var_name = ''V0,1'', domain = [PInt 2], assignedValue = Some (PInt 2)\<rparr>, Variable ''V0,2'']] [(0, 0), (0, 1), (0, 2)] 1 = Inr c \<and>
        scope c = [Variable ''V0,0'', \<lparr>var_name = ''V0,1'', domain = [PInt 2], assignedValue = Some (PInt 2)\<rparr>, Variable ''V0,2''] \<and>
        length (sat_tuples c) =
          fact (length ([(0, 0), (0, 1), (0, 2)] :: room) -
                length (filter is_assigned [Variable ''V0,0'', \<lparr>var_name = ''V0,1'', domain = [PInt 2], assignedValue = Some (PInt 2)\<rparr>, Variable ''V0,2''])) \<and>
        distinct (sat_tuples c) \<and>
        set (sat_tuples c) =
          {t. mset t = mset (map PInt [1..int (length ([(0, 0), (0, 1), (0, 2)] :: room))]) \<and>
              (\<forall>i<length ([(0, 0), (0, 1), (0, 2)] :: room). \<forall>v.
                 assignedValue ([Variable ''V0,0'', \<lparr>var_name = ''V0,1'', domain = [PInt 2], assignedValue = Some (PInt 2)\<rparr>, Variable ''V0,2''] ! i) = Some v \<longrightarrow> t ! i = v)})"
proof -
  let ?sc = "[Variable ''V0,0'', \<lparr>var_name = ''V0,1'', domain = [PInt 2], assignedValue = Some (PInt 2)\<rparr>, Variable ''V0,2'']"
  let ?room = "[(0, 0), (0, 1), (0, 2)] :: room"
  have h1: "mapE (grid_get [?sc]) ?room = Inr ?sc"
    by (simp add: grid_get_def py_index_def py_pos_def)
  have fv: "fixed_values ?sc = [PInt 2]"
    by (simp add: fixed_values_Cons Variable_def)
  have h2: "distinct (fixed_values ?sc)" by (simp add: fv)
  have h3: "set (fixed_values ?sc) \<subseteq> PInt ` {1..int (length ?room)}" by (simp add: fv)
  show ?thesis
    by (intro conjI h1 h2 h3 room_constraint_table[OF h1 h2 h3])
qed

lemma foldE_append:
  "foldE f (xs @ ys) s = (case foldE f xs s of Inl e \<Rightarrow> Inl e | Inr s' \<Rightarrow> foldE f ys s')"
  by (induction xs arbitrary: s) (auto split: sum.splits)

lemma foldE_pure:
  assumes "\<And>x s. x \<in> set xs \<Longrightarrow> P s \<Longrightarrow> f x s = Inr (g x s) \<and> P (g x s)"
    and "P s"
  shows "foldE f xs s = Inr (fold g xs s) \<and> P (fold g xs s)"
  using assms
proof (induction xs arbitrary: s)
  case Nil
  then show ?case by simp
next
  case (Cons x xs)
  from Cons.prems(1)[of x s] Cons.prems(2) have fx: "f x s = Inr (g x s)" and P: "P (g x s)" by auto
  have "foldE f xs (g x s) = Inr (fold g xs (g x s)) \<and> P (fold g xs (g x s))"
    by (rule Cons.IH[OF _ P]) (use Cons.prems(1) in auto)
  with fx show ?case by simp
qed

lemma foldE_error:
  assumes "\<And>x s e. x \<in> set xs \<Longrightarrow> f x s = Inl e \<Longrightarrow> e = E"
    and "foldE f xs s = Inl e"
  shows "e = E"
  using assms
proof (induction xs arbitrary: s)
  case Nil
  then show ?case by simp
next
  case (Cons x xs)
  show ?case
  proof (cases "f x s")
    case (Inl e')
    with Cons.prems(2) have "e' = e" by simp
    with Cons.prems(1)[of x s e'] Inl show ?thesis by simp
  next
    case (Inr s')
    with Cons.prems(2) have "foldE f xs s' = Inl e" by simp
    then show ?thesis by (rule Cons.IH[rotated]) (use Cons.prems(1) in auto)
  qed
qed

lemma foldE_invariant:
  assumes "\<And>x s s'. x \<in> set xs \<Longrightarrow> P s \<Longrightarrow> f x s = Inr s' \<Longrightarrow> P s' \<and> Q x"
    and "P s" and "foldE f xs s = Inr s'"
  shows "P s' \<and> (\<forall>x\<in>set xs. Q x)"
  using assms
proof (induction xs arbitrary: s)
  case Nil
  then show ?case by simp
next
  case (Cons x xs)
  from Cons.prems(3) obtain s1 where fx: "f x s = Inr s1" and r: "foldE f xs s1 = Inr s'"
    by (auto split: sum.splits)
  from Cons.prems(1)[of x s s1] Cons.prems(2) fx have P1: "P s1" and Q: "Q x" by auto
  have "P s' \<and> (\<forall>x\<in>set xs. Q x)"
    by (rule Cons.IH[OF _ P1 r]) (use Cons.prems(1) in auto)
  with Q show ?case by simp
qed

lemma grid_set_nth:
  "p < length g \<Longrightarrow> q < length (g ! p) \<Longrightarrow>
     grid_set g p q v ! p' ! q' = (if p' = p \<and> q' = q then v else g ! p' ! q')"
  by (cases "p' = p") (auto simp: grid_set_def nth_list_update)

lemma grid_set_dims:
  "grid_dims g N M \<Longrightarrow> grid_dims (grid_set g p q v) N M"
proof -
  assume d: "grid_dims g N M"
  have "length (g[p := (g ! p)[q := v]] ! n) = M" if "n < length g" for n
    using d that by (cases "n = p") (auto simp: grid_dims_def list_all_length)
  with d show ?thesis by (simp add: grid_dims_def grid_set_def list_all_length)
qed

lemma grid_dims_nth: "grid_dims g N M \<Longrightarrow> p < N \<Longrightarrow> length (g ! p) = M"
  by (simp add: grid_dims_def list_all_length)

lemma py_pos_in: "0 \<le> i \<Longrightarrow> i < int n \<Longrightarrow> py_pos n i = Some (nat i)"
  by (simp add: py_pos_def)

lemma py_pos_Some: "py_pos n i = Some p \<Longrightarrow> p < n"
  by (auto simp: py_pos_def split: if_splits)

lemma board_index:
  assumes "board_ok b N M" and "in_grid N M (i, j)"
  shows "py_index b (i * 2) = Inr (b ! nat (i * 2))"
    and "py_index (b ! nat (i * 2)) (j * 2) = Inr (b ! nat (i * 2) ! nat (j * 2))"
proof -
  from assms have i: "0 \<le> i * 2" "i * 2 < int (length b)"
    by (auto simp: board_ok_def in_grid_def)
  then show "py_index b (i * 2) = Inr (b ! nat (i * 2))"
    by (simp add: py_index_def py_pos_in)
  from i have "nat (i * 2) < length b" by simp
  with assms have "length (b ! nat (i * 2)) = 2 * M - 1"
    by (simp add: board_ok_def list_all_length)
  with assms have "0 \<le> j * 2" "j * 2 < int (length (b ! nat (i * 2)))"
    by (auto simp: board_ok_def in_grid_def)
  then show "py_index (b ! nat (i * 2)) (j * 2) = Inr (b ! nat (i * 2) ! nat (j * 2))"
    by (simp add: py_index_def py_pos_in)
qed

lemma cell_step_in:
  assumes "board_ok b N M" and "grid_dims g N M" and "in_grid N M c"
  shows "cell_step b k c g = Inr (cell_pure b k c g)"
proof -
  obtain i j where c: "c = (i, j)" by (cases c)
  from assms(3) c have ij: "0 \<le> i" "i < int N" "0 \<le> j" "j < int M"
    by (auto simp: in_grid_def)
  from assms(2) ij have p: "py_pos (length g) i = Some (nat i)"
    by (simp add: grid_dims_def py_pos_in)
  from ij have "nat i < N" by simp
  with assms(2) have "length (g ! nat i) = M" by (rule grid_dims_nth)
  with ij have q: "py_pos (length (g ! nat i)) j = Some (nat j)"
    by (simp add: py_pos_in)
  from board_index[OF assms(1)] assms(3) c
  have b1: "py_index b (i * 2) = Inr (b ! nat (i * 2))"
    and b2: "py_index (b ! nat (i * 2)) (j * 2) = Inr (b ! nat (i * 2) ! nat (j * 2))"
    by simp_all
  show ?thesis
    by (simp add: cell_step_def c p q b1 b2 cell_pure_def clue_update_def clue_at_def Let_def)
qed

lemma cell_pure_dims: "grid_dims g N M \<Longrightarrow> grid_dims (cell_pure b k c g) N M"
  by (simp add: cell_pure_def grid_set_dims)

lemma cell_step_error: "cell_step b k c g = Inl e \<Longrightarrow> e = IndexError"
  by (auto simp: cell_step_def py_index_def Let_def split: prod.splits option.splits sum.splits)

lemma cell_step_addressable:
  assumes "cell_step b k c g = Inr g'" and "grid_dims g N M"
  shows "grid_dims g' N M \<and> py_pos N (fst c) \<noteq> None \<and> py_pos M (snd c) \<noteq> None"
proof -
  obtain i j where c: "c = (i, j)" by (cases c)
  from assms(1) c obtain p q v where p: "py_pos (length g) i = Some p"
    and q: "py_pos (length (g ! p)) j = Some q" and g': "g' = grid_set g p q v"
    by (auto simp: cell_step_def py_index_def Let_def split: option.splits sum.splits)
  from p assms(2) have "p < N" by (auto simp: grid_dims_def dest: py_pos_Some)
  with assms(2) have "length (g ! p) = M" by (rule grid_dims_nth)
  with p q assms(2) c g' show ?thesis by (simp add: grid_dims_def[of g] grid_set_dims)
qed


lemma rooms_in_gridD:
  "rooms_in_grid N M rooms \<Longrightarrow> room \<in> set rooms \<Longrightarrow> c \<in> set room \<Longrightarrow> in_grid N M c"
  by (auto simp: rooms_in_grid_def list_all_iff)

lemma new_var_array_dims: "grid_dims (new_var_array M N) N M"
  by (simp add: grid_dims_def new_var_array_def list_all_iff)

lemma new_var_array_nth:
  "p < N \<Longrightarrow> q < M \<Longrightarrow>
     new_var_array M N ! p ! q = Variable (''V'' @ string_of_nat p @ '','' @ string_of_nat q)"
  by (simp add: new_var_array_def)

lemma room_step_in:
  assumes b: "board_ok b N M" and g: "grid_dims g N M" and r: "list_all (in_grid N M) room"
  shows "foldE (cell_step b k) room g = Inr (fold (cell_pure b k) room g) \<and>
         grid_dims (fold (cell_pure b k) room g) N M"
proof (rule foldE_pure[where P = "\<lambda>g. grid_dims g N M"])
  fix c s assume "c \<in> set room" and s: "grid_dims s N M"
  with r have "in_grid N M c" by (simp add: list_all_iff)
  with b s show "cell_step b k c s = Inr (cell_pure b k c s) \<and> grid_dims (cell_pure b k c s) N M"
    by (simp add: cell_step_in cell_pure_dims)
qed (rule g)

lemma rooms_step_in:
  assumes b: "board_ok b N M" and g: "grid_dims g N M" and r: "rooms_in_grid N M rooms"
  shows "foldE (\<lambda>room. foldE (cell_step b (length room)) room) rooms g =
           Inr (fold (room_pure b) rooms g) \<and>
         grid_dims (fold (room_pure b) rooms g) N M"
proof (rule foldE_pure[where P = "\<lambda>g. grid_dims g N M"])
  fix room s assume "room \<in> set rooms" and s: "grid_dims s N M"
  with r have "list_all (in_grid N M) room" by (simp add: rooms_in_grid_def list_all_iff)
  from room_step_in[OF b s this, of "length room"]
  show "foldE (cell_step b (length room)) room s = Inr (room_pure b room s) \<and>
        grid_dims (room_pure b room s) N M"
    by (simp add: room_pure_def)
qed (rule g)

lemma make_variable_in:
  assumes "board_ok b N M" and "rooms_in_grid N M rooms"
  shows "make_variable b rooms M N = Inr (fold (room_pure b) rooms (new_var_array M N))"
    and "grid_dims (fold (room_pure b) rooms (new_var_array M N)) N M"
  using rooms_step_in[OF assms(1) new_var_array_dims assms(2)]
  by (simp_all add: make_variable_def)

lemma make_variable_error: "make_variable b rooms M N = Inl e \<Longrightarrow> e = IndexError"
  unfolding make_variable_def
proof (erule foldE_error[rotated])
  fix room s e assume "foldE (cell_step b (length room)) room s = Inl e"
  then show "e = IndexError"
    by (rule foldE_error[rotated]) (rule cell_step_error)
qed

lemma make_variable_addressable:
  assumes "make_variable b rooms M N = Inr g"
  shows "grid_dims g N M \<and>
         (\<forall>room\<in>set rooms. \<forall>c\<in>set room. py_pos N (fst c) \<noteq> None \<and> py_pos M (snd c) \<noteq> None)"
proof (rule foldE_invariant[where P = "\<lambda>g. grid_dims g N M" and f = "\<lambda>room. foldE (cell_step b (length room)) room"
      and s = "new_var_array M N"])
  show "grid_dims (new_var_array M N) N M" by (rule new_var_array_dims)
  show "foldE (\<lambda>room. foldE (cell_step b (length room)) room) rooms (new_var_array M N) = Inr g"
    using assms by (simp add: make_variable_def)
next
  fix room s s'
  assume s: "grid_dims s N M" and f: "foldE (cell_step b (length room)) room s = Inr s'"
  show "grid_dims s' N M \<and> (\<forall>c\<in>set room. py_pos N (fst c) \<noteq> None \<and> py_pos M (snd c) \<noteq> None)"
  proof (rule foldE_invariant[where P = "\<lambda>g. grid_dims g N M", OF _ s f])
    fix c t t' assume "grid_dims t N M" "cell_step b (length room) c t = Inr t'"
    then show "grid_dims t' N M \<and> py_pos N (fst c) \<noteq> None \<and> py_pos M (snd c) \<noteq> None"
      using cell_step_addressable by blast
  qed
qed

lemma cell_pure_nth:
  assumes "grid_dims g N M" and "in_grid N M c"
  shows "cell_pure b k c g ! p ! q =
           (if (int p, int q) = c then clue_update k (clue_at b c) (g ! p ! q) else g ! p ! q)"
proof -
  obtain i j where c: "c = (i, j)" by (cases c)
  from assms c have ij: "0 \<le> i" "i < int N" "0 \<le> j" "j < int M"
    by (auto simp: in_grid_def)
  then have "nat i < length g" using assms(1) by (simp add: grid_dims_def)
  moreover have "nat j < length (g ! nat i)"
    using grid_dims_nth[OF assms(1), of "nat i"] ij by simp
  ultimately have "grid_set g (nat i) (nat j) v ! p ! q =
      (if p = nat i \<and> q = nat j then v else g ! p ! q)" for v
    by (rule grid_set_nth)
  moreover have "(p = nat i \<and> q = nat j) = ((int p, int q) = (i, j))" using ij by auto
  ultimately show ?thesis by (auto simp: cell_pure_def c)
qed

lemma cells_pure_frame:
  "grid_dims g N M \<Longrightarrow> list_all (in_grid N M) cells \<Longrightarrow> (int p, int q) \<notin> set cells \<Longrightarrow>
     fold (cell_pure b k) cells g ! p ! q = g ! p ! q"
proof (induction cells arbitrary: g)
  case Nil
  then show ?case by simp
next
  case (Cons c cells)
  from Cons.prems have d: "grid_dims (cell_pure b k c g) N M" by (simp add: cell_pure_dims)
  from Cons.prems have "fold (cell_pure b k) cells (cell_pure b k c g) ! p ! q = cell_pure b k c g ! p ! q"
    by (intro Cons.IH[OF d]) auto
  also have "\<dots> = g ! p ! q" using Cons.prems by (subst cell_pure_nth[of g N M]) auto
  finally show ?case by simp
qed

lemma cells_pure_dims:
  "grid_dims g N M \<Longrightarrow> grid_dims (fold (cell_pure b k) cells g) N M"
  by (induction cells arbitrary: g) (auto simp: cell_pure_dims)

lemma cells_pure_hit:
  "grid_dims g N M \<Longrightarrow> list_all (in_grid N M) cells \<Longrightarrow> distinct cells \<Longrightarrow>
     (int p, int q) \<in> set cells \<Longrightarrow>
     fold (cell_pure b k) cells g ! p ! q = clue_update k (clue_at b (int p, int q)) (g ! p ! q)"
proof (induction cells arbitrary: g)
  case Nil
  then show ?case by simp
next
  case (Cons c cells)
  from Cons.prems have d: "grid_dims (cell_pure b k c g) N M" by (simp add: cell_pure_dims)
  from Cons.prems have in_c: "in_grid N M c" and in_cs: "list_all (in_grid N M) cells" by auto
  show ?case
  proof (cases "(int p, int q) = c")
    case True
    with Cons.prems have "(int p, int q) \<notin> set cells" by auto
    from cells_pure_frame[OF d in_cs this]
    have "fold (cell_pure b k) cells (cell_pure b k c g) ! p ! q = cell_pure b k c g ! p ! q" .
    also have "\<dots> = clue_update k (clue_at b c) (g ! p ! q)"
      using True by (subst cell_pure_nth[OF Cons.prems(1) in_c]) simp
    finally show ?thesis using True by simp
  next
    case False
    with Cons.prems have m: "(int p, int q) \<in> set cells" and dc: "distinct cells" by auto
    from Cons.IH[OF d in_cs dc m]
    have "fold (cell_pure b k) cells (cell_pure b k c g) ! p ! q =
            clue_update k (clue_at b (int p, int q)) (cell_pure b k c g ! p ! q)" .
    also have "cell_pure b k c g ! p ! q = g ! p ! q"
      using False by (subst cell_pure_nth[OF Cons.prems(1) in_c]) simp
    finally show ?thesis by simp
  qed
qed

lemma room_pure_dims: "grid_dims g N M \<Longrightarrow> grid_dims (room_pure b room g) N M"
  by (simp add: room_pure_def cells_pure_dims)

lemma rooms_pure_frame:
  "grid_dims g N M \<Longrightarrow> rooms_in_grid N M rooms \<Longrightarrow> (int p, int q) \<notin> set (concat rooms) \<Longrightarrow>
     fold (room_pure b) rooms g ! p ! q = g ! p ! q"
proof (induction rooms arbitrary: g)
  case Nil
  then show ?case by simp
next
  case (Cons r rooms)
  from Cons.prems have d: "grid_dims (room_pure b r g) N M" by (simp add: room_pure_dims)
  from Cons.prems have "fold (room_pure b) rooms (room_pure b r g) ! p ! q = room_pure b r g ! p ! q"
    by (intro Cons.IH[OF d]) (auto simp: rooms_in_grid_def)
  also have "\<dots> = g ! p ! q"
    unfolding room_pure_def using Cons.prems
    by (intro cells_pure_frame[of g N M]) (auto simp: rooms_in_grid_def)
  finally show ?case by simp
qed

lemma rooms_pure_hit:
  "grid_dims g N M \<Longrightarrow> rooms_in_grid N M rooms \<Longrightarrow> distinct (concat rooms) \<Longrightarrow>
     r \<in> set rooms \<Longrightarrow> (int p, int q) \<in> set r \<Longrightarrow>
     fold (room_pure b) rooms g ! p ! q =
       clue_update (length r) (clue_at b (int p, int q)) (g ! p ! q)"
proof (induction rooms arbitrary: g)
  case Nil
  then show ?case by simp
next
  case (Cons r' rooms)
  from Cons.prems have d: "grid_dims (room_pure b r' g) N M" by (simp add: room_pure_dims)
  from Cons.prems have in_r': "list_all (in_grid N M) r'" and in_rs: "rooms_in_grid N M rooms"
    by (auto simp: rooms_in_grid_def)
  from Cons.prems have dr': "distinct r'" and drs: "distinct (concat rooms)"
    and disj: "set r' \<inter> set (concat rooms) = {}" by auto
  show ?case
  proof (cases "(int p, int q) \<in> set r'")
    case True
    with disj have nin: "(int p, int q) \<notin> set (concat rooms)" by auto
    have "r = r'"
    proof (rule ccontr)
      assume "r \<noteq> r'"
      with Cons.prems have "r \<in> set rooms" by auto
      with Cons.prems(5) have "(int p, int q) \<in> set (concat rooms)" by auto
      with nin show False by simp
    qed
    from rooms_pure_frame[OF d in_rs nin]
    have "fold (room_pure b) rooms (room_pure b r' g) ! p ! q = room_pure b r' g ! p ! q" .
    also have "\<dots> = clue_update (length r') (clue_at b (int p, int q)) (g ! p ! q)"
      unfolding room_pure_def by (rule cells_pure_hit[OF Cons.prems(1) in_r' dr' True])
    finally show ?thesis using \<open>r = r'\<close> by simp
  next
    case False
    with Cons.prems have m: "r \<in> set rooms" by auto
    from Cons.IH[OF d in_rs drs m Cons.prems(5)]
    have "fold (room_pure b) rooms (room_pure b r' g) ! p ! q =
            clue_update (length r) (clue_at b (int p, int q)) (room_pure b r' g ! p ! q)" .
    also have "room_pure b r' g ! p ! q = g ! p ! q"
      unfolding room_pure_def by (rule cells_pure_frame[OF Cons.prems(1) in_r' False])
    finally show ?thesis by simp
  qed
qed


lemma py_range_distinct: "distinct (py_range lo hi)"
  by (simp add: py_range_def distinct_map inj_on_def)

lemma py_range_set: "set (py_range lo hi) = {PInt (int v) |v. lo \<le> v \<and> v < hi}"
  by (auto simp: py_range_def)

lemma product2_distinct: "distinct xs \<Longrightarrow> distinct (product2 xs)"
  by (auto simp: product2_def distinct_map distinct_product inj_on_def)

lemma product2_set: "set (product2 xs) = {[a, b] |a b. a \<in> set xs \<and> b \<in> set xs}"
  by (auto simp: product2_def image_iff)

lemma full_table_distinct: "distinct (full_table R)"
  by (simp add: full_table_def product2_distinct py_range_distinct)

lemma full_table_set:
  "set (full_table R) = {[PInt (int a), PInt (int b)] |a b. 1 \<le> a \<and> a \<le> R \<and> 1 \<le> b \<and> b \<le> R}"
  unfolding full_table_def product2_set py_range_set by auto

lemma zip_same: "zip xs xs = map (\<lambda>x. (x, x)) xs"
  by (induction xs) auto

lemma diag_eq: "diag R n = map (\<lambda>v. [PInt (int v), PInt (int v)]) [n + 1..<R + 1]"
  by (simp add: diag_def zip_same py_range_def comp_def)

lemma diag_distinct: "distinct (diag R n)"
  by (simp add: diag_eq distinct_map inj_on_def)

lemma diag_set: "set (diag R n) = {[PInt (int v), PInt (int v)] |v. n + 1 \<le> v \<and> v \<le> R}"
  by (auto simp: diag_eq)

lemma diag_subset: "set (diag R n) \<subseteq> set (full_table R)"
  unfolding diag_set full_table_set by auto

lemma fold_remove1_distinct:
  "distinct xs \<Longrightarrow> distinct (fold remove1 ts xs) \<and> set (fold remove1 ts xs) = set xs - set ts"
  by (induction ts arbitrary: xs) auto

lemma dist_table_distinct: "distinct (dist_table R n)"
  by (simp add: dist_table_def fold_remove1_distinct full_table_distinct)

lemma dist_table_set:
  "set (dist_table R n) =
     {[PInt (int a), PInt (int b)] |a b. 1 \<le> a \<and> a \<le> R \<and> 1 \<le> b \<and> b \<le> R \<and> \<not> (a = b \<and> n + 1 \<le> a)}"
proof -
  have "set (dist_table R n) = set (full_table R) - set (diag R n)"
    by (simp add: dist_table_def fold_remove1_distinct full_table_distinct)
  then show ?thesis unfolding full_table_set diag_set by auto
qed

lemma remove_each:
  "distinct ts \<Longrightarrow> set ts \<subseteq> set (tabs ! n) \<Longrightarrow> n < length tabs \<Longrightarrow>
     foldE (\<lambda>t tabs. if n < length tabs
                      then (case py_remove t (tabs ! n) of Inl e \<Rightarrow> Inl e
                            | Inr tb \<Rightarrow> Inr (tabs[n := tb]))
                      else Inl IndexError) ts tabs
       = Inr (tabs[n := fold remove1 ts (tabs ! n)])"
proof (induction ts arbitrary: tabs)
  case Nil
  then show ?case by simp
next
  case (Cons t ts)
  let ?tabs = "tabs[n := remove1 t (tabs ! n)]"
  from Cons.prems have t: "t \<in> set (tabs ! n)" by simp
  have "set ts \<subseteq> set (?tabs ! n)"
  proof
    fix x assume x: "x \<in> set ts"
    with Cons.prems have "x \<noteq> t" "x \<in> set (tabs ! n)" by auto
    then show "x \<in> set (?tabs ! n)" using Cons.prems(3) by simp
  qed
  from Cons.IH[OF _ this] Cons.prems
  have "foldE (\<lambda>t tabs. if n < length tabs
                      then (case py_remove t (tabs ! n) of Inl e \<Rightarrow> Inl e
                            | Inr tb \<Rightarrow> Inr (tabs[n := tb]))
                      else Inl IndexError) ts ?tabs
       = Inr (?tabs[n := fold remove1 ts (?tabs ! n)])" by simp
  with t Cons.prems(3) show ?case by (simp add: py_remove_def)
qed

lemma remove_diag_ok:
  "n < length tabs \<Longrightarrow> tabs ! n = full_table R \<Longrightarrow>
     remove_diag R n tabs = Inr (tabs[n := dist_table R n])"
proof -
  assume n: "n < length tabs" "tabs ! n = full_table R"
  have "remove_diag R n tabs =
      foldE (\<lambda>t tabs. if n < length tabs
                      then (case py_remove t (tabs ! n) of Inl e \<Rightarrow> Inl e
                            | Inr tb \<Rightarrow> Inr (tabs[n := tb]))
                      else Inl IndexError) (diag R n) tabs"
    unfolding remove_diag_def diag_def ..
  also have "\<dots> = Inr (tabs[n := fold remove1 (diag R n) (tabs ! n)])"
    using diag_distinct[of R n] diag_subset[of R n] n by (intro remove_each) simp_all
  finally show ?thesis using n by (simp add: dist_table_def)
qed

lemma remove_diags:
  "distinct ns \<Longrightarrow> (\<And>n. n \<in> set ns \<Longrightarrow> n < length tabs \<and> tabs ! n = full_table R) \<Longrightarrow>
     \<exists>T. foldE (remove_diag R) ns tabs = Inr T \<and> length T = length tabs \<and>
         (\<forall>m<length tabs. T ! m = (if m \<in> set ns then dist_table R m else tabs ! m))"
proof (induction ns arbitrary: tabs)
  case Nil
  then show ?case by simp
next
  case (Cons n ns)
  let ?tabs = "tabs[n := dist_table R n]"
  from Cons.prems(2)[of n] have n: "n < length tabs" "tabs ! n = full_table R" by simp_all
  then have step: "remove_diag R n tabs = Inr ?tabs" by (rule remove_diag_ok)
  have "\<exists>T. foldE (remove_diag R) ns ?tabs = Inr T \<and> length T = length ?tabs \<and>
         (\<forall>m<length ?tabs. T ! m = (if m \<in> set ns then dist_table R m else ?tabs ! m))"
  proof (rule Cons.IH)
    show "distinct ns" using Cons.prems(1) by simp
    fix m assume m: "m \<in> set ns"
    with Cons.prems(1) have "m \<noteq> n" by auto
    with Cons.prems(2)[of m] m show "m < length ?tabs \<and> ?tabs ! m = full_table R" by simp
  qed
  then obtain T where T: "foldE (remove_diag R) ns ?tabs = Inr T" "length T = length tabs"
    "\<And>m. m < length tabs \<Longrightarrow> T ! m = (if m \<in> set ns then dist_table R m else ?tabs ! m)"
    by auto
  have "T ! m = (if m \<in> set (n # ns) then dist_table R m else tabs ! m)" if "m < length tabs" for m
    using T(3)[OF that] that by (cases "m = n") auto
  with T(1,2) step show ?case by simp
qed

lemma n_dist_tuples_ok:
  "\<exists>T. n_dist_tuples R = Inr T \<and> length T = R \<and> (\<forall>n<R. T ! n = dist_table R n)"
proof -
  let ?tabs = "map (\<lambda>i. product2 (py_range 1 (R + 1))) [0..<R]"
  have "\<exists>T. foldE (remove_diag R) [0..<R] ?tabs = Inr T \<and> length T = length ?tabs \<and>
         (\<forall>m<length ?tabs. T ! m = (if m \<in> set [0..<R] then dist_table R m else ?tabs ! m))"
    by (rule remove_diags) (simp_all add: full_table_def)
  then show ?thesis by (auto simp: n_dist_tuples_def)
qed


lemma dist_self [simp]: "dist a a = 0"
  by (simp add: dist_def)

lemma grid_at_in:
  assumes "grid_dims va N M" and "i < N" and "j < M"
  shows "grid_at va i j = Inr (va ! i ! j)"
proof -
  from assms have "py_pos (length va) (int i) = Some i" by (simp add: grid_dims_def py_pos_def)
  moreover from assms have "length (va ! i) = M" by (simp add: grid_dims_nth)
  with assms have "py_pos (length (va ! i)) (int j) = Some j" by (simp add: py_pos_def)
  ultimately show ?thesis by (simp add: grid_at_def grid_get_def py_index_def)
qed

lemma foldE_appending:
  "(\<And>x s. x \<in> set xs \<Longrightarrow> f x s = Inr (s @ h x)) \<Longrightarrow>
     foldE f xs s = Inr (s @ concat (map h xs))"
  by (induction xs arbitrary: s) auto

lemma concat_single:
  "concat (map (\<lambda>n. if d = n + 1 then [k n] else []) [0..<R]) =
     (if 1 \<le> d \<and> d \<le> R then [k (d - 1)] else [])"
  by (induction R) auto

lemma concat_filter:
  "concat (map (\<lambda>x. if P x then [f x] else []) xs) = map f (filter P xs)"
  by (induction xs) auto

lemma dist_step_in:
  assumes "grid_dims va N M" and "fst c1 < N" and "snd c1 < M" and "fst c2 < N" and "snd c2 < M"
    and "n < length tabs"
  shows "dist_step va tabs c1 c2 a b n cs =
           Inr (cs @ (if dist a b = n + 1
                      then [add_satisfying_tuples
                              (make_constraint (va ! fst c1 ! snd c1) (va ! fst c2 ! snd c2))
                              (tabs ! n)]
                      else []))"
proof -
  have "(\<bar>int a - int b\<bar> = int n + 1) = (dist a b = n + 1)"
    by (auto simp: dist_def)
  then show ?thesis
    using grid_at_in[OF assms(1,2,3)] grid_at_in[OF assms(1,4,5)] assms(6)
    by (simp add: dist_step_def)
qed

lemma dist_loop:
  assumes "grid_dims va N M" and "fst c1 < N" and "snd c1 < M" and "fst c2 < N" and "snd c2 < M"
    and "length tabs = R"
  shows "foldE (dist_step va tabs c1 c2 a b) [0..<R] cs =
           Inr (cs @ (if 1 \<le> dist a b \<and> dist a b \<le> R
                      then [add_satisfying_tuples
                              (make_constraint (va ! fst c1 ! snd c1) (va ! fst c2 ! snd c2))
                              (tabs ! (dist a b - 1))]
                      else []))"
proof -
  let ?k = "\<lambda>n. add_satisfying_tuples
                (make_constraint (va ! fst c1 ! snd c1) (va ! fst c2 ! snd c2)) (tabs ! n)"
  have "foldE (dist_step va tabs c1 c2 a b) [0..<R] cs =
          Inr (cs @ concat (map (\<lambda>n. if dist a b = n + 1 then [?k n] else []) [0..<R]))"
    by (rule foldE_appending) (use assms in \<open>simp add: dist_step_in[OF assms(1-5)]\<close>)
  then show ?thesis by (simp only: concat_single)
qed

lemma row_axis_loop:
  assumes "grid_dims va N M" and "i < N" and "length tabs = R"
  shows "foldE (\<lambda>(a, b). foldE (dist_step va tabs (i, a) (i, b) a b) [0..<R])
           (List.product [0..<M] [0..<M]) cs =
         Inr (cs @ map (space_con va tabs) (map (\<lambda>(a, b). ((i, a), (i, b))) (axis_pairs R M)))"
proof -
  let ?h = "\<lambda>x. if (case x of (a, b) \<Rightarrow> 1 \<le> dist a b \<and> dist a b \<le> R)
                 then [(case x of (a, b) \<Rightarrow> space_con va tabs ((i, a), (i, b)))] else []"
  have "foldE (\<lambda>(a, b). foldE (dist_step va tabs (i, a) (i, b) a b) [0..<R])
           (List.product [0..<M] [0..<M]) cs =
        Inr (cs @ concat (map ?h (List.product [0..<M] [0..<M])))"
  proof (rule foldE_appending)
    fix x s assume "x \<in> set (List.product [0..<M] [0..<M])"
    then obtain a b where x: "x = (a, b)" and ab: "a < M" "b < M" by auto
    from dist_loop[OF assms(1), of "(i, a)" "(i, b)" tabs R a b s] assms(2,3) ab
    show "(case x of (a, b) \<Rightarrow> foldE (dist_step va tabs (i, a) (i, b) a b) [0..<R]) s = Inr (s @ ?h x)"
      by (simp add: x space_con_def)
  qed
  then show ?thesis
    by (simp only: concat_filter axis_pairs_def) (simp add: comp_def case_prod_unfold)
qed

lemma col_axis_loop:
  assumes "grid_dims va N M" and "i < M" and "length tabs = R"
  shows "foldE (\<lambda>(a, b). foldE (dist_step va tabs (a, i) (b, i) a b) [0..<R])
           (List.product [0..<N] [0..<N]) cs =
         Inr (cs @ map (space_con va tabs) (map (\<lambda>(a, b). ((a, i), (b, i))) (axis_pairs R N)))"
proof -
  let ?h = "\<lambda>x. if (case x of (a, b) \<Rightarrow> 1 \<le> dist a b \<and> dist a b \<le> R)
                 then [(case x of (a, b) \<Rightarrow> space_con va tabs ((a, i), (b, i)))] else []"
  have "foldE (\<lambda>(a, b). foldE (dist_step va tabs (a, i) (b, i) a b) [0..<R])
           (List.product [0..<N] [0..<N]) cs =
        Inr (cs @ concat (map ?h (List.product [0..<N] [0..<N])))"
  proof (rule foldE_appending)
    fix x s assume "x \<in> set (List.product [0..<N] [0..<N])"
    then obtain a b where x: "x = (a, b)" and ab: "a < N" "b < N" by auto
    from dist_loop[OF assms(1), of "(a, i)" "(b, i)" tabs R a b s] assms(2,3) ab
    show "(case x of (a, b) \<Rightarrow> foldE (dist_step va tabs (a, i) (b, i) a b) [0..<R]) s = Inr (s @ ?h x)"
      by (simp add: x space_con_def)
  qed
  then show ?thesis
    by (simp only: concat_filter axis_pairs_def) (simp add: comp_def case_prod_unfold)
qed

lemma row_loop_ok:
  assumes "grid_dims va N M" and "length tabs = R"
  shows "row_loop va tabs R M N cs = Inr (cs @ map (space_con va tabs) (row_pairs R M N))"
proof -
  have "row_loop va tabs R M N cs =
      Inr (cs @ concat (map (\<lambda>i. map (space_con va tabs)
                                   (map (\<lambda>(a, b). ((i, a), (i, b))) (axis_pairs R M))) [0..<N]))"
    unfolding row_loop_def
    by (rule foldE_appending) (simp add: row_axis_loop[OF assms(1) _ assms(2)])
  then show ?thesis by (simp add: row_pairs_def map_concat comp_def)
qed

lemma col_loop_ok:
  assumes "grid_dims va N M" and "length tabs = R"
  shows "col_loop va tabs R M N cs = Inr (cs @ map (space_con va tabs) (col_pairs R M N))"
proof -
  have "col_loop va tabs R M N cs =
      Inr (cs @ concat (map (\<lambda>i. map (space_con va tabs)
                                   (map (\<lambda>(a, b). ((a, i), (b, i))) (axis_pairs R N))) [0..<M]))"
    unfolding col_loop_def
    by (rule foldE_appending) (simp add: col_axis_loop[OF assms(1) _ assms(2)])
  then show ?thesis by (simp add: col_pairs_def map_concat comp_def)
qed

lemma space_constraint_ok:
  assumes "grid_dims va N M"
  shows "\<exists>T. n_dist_tuples R = Inr T \<and> length T = R \<and> (\<forall>n<R. T ! n = dist_table R n) \<and>
             space_constraint va R M N =
               Inr (map (space_con va T) (row_pairs R M N @ col_pairs R M N))"
proof -
  from n_dist_tuples_ok[of R] obtain T where T: "n_dist_tuples R = Inr T" "length T = R"
    "\<forall>n<R. T ! n = dist_table R n" by blast
  have "space_constraint va R M N = Inr (map (space_con va T) (row_pairs R M N @ col_pairs R M N))"
    by (simp add: space_constraint_def T(1) row_loop_ok[OF assms T(2)] col_loop_ok[OF assms T(2)])
  with T show ?thesis by blast
qed

lemma axis_pairs_distinct: "distinct (axis_pairs R L)"
  by (simp add: axis_pairs_def distinct_product)

lemma axis_pairs_set:
  "set (axis_pairs R L) = {(a, b). a < L \<and> b < L \<and> 1 \<le> dist a b \<and> dist a b \<le> R}"
  by (auto simp: axis_pairs_def)

lemma row_pairs_set:
  "set (row_pairs R M N) =
     {((i, a), (i', b)). i = i' \<and> i < N \<and> a < M \<and> b < M \<and> 1 \<le> dist a b \<and> dist a b \<le> R}"
  by (auto simp: row_pairs_def axis_pairs_set)

lemma col_pairs_set:
  "set (col_pairs R M N) =
     {((a, i), (b, i')). i = i' \<and> i < M \<and> a < N \<and> b < N \<and> 1 \<le> dist a b \<and> dist a b \<le> R}"
  by (auto simp: col_pairs_def axis_pairs_set)

lemma distinct_concat_map:
  "distinct xs \<Longrightarrow> (\<And>x. x \<in> set xs \<Longrightarrow> distinct (f x)) \<Longrightarrow>
   (\<And>x y. x \<in> set xs \<Longrightarrow> y \<in> set xs \<Longrightarrow> x \<noteq> y \<Longrightarrow> set (f x) \<inter> set (f y) = {}) \<Longrightarrow>
   distinct (concat (map f xs))"
proof (induction xs)
  case Nil
  then show ?case by simp
next
  case (Cons x xs)
  have "distinct (concat (map f xs))"
    by (rule Cons.IH) (use Cons.prems in auto)
  moreover have "set (f x) \<inter> set (f y) = {}" if "y \<in> set xs" for y
    using Cons.prems(1) that by (intro Cons.prems(3)) auto
  ultimately show ?case using Cons.prems(2)[of x] by auto
qed

lemma row_pairs_distinct: "distinct (row_pairs R M N)"
  unfolding row_pairs_def
  by (rule distinct_concat_map)
     (auto simp: distinct_map axis_pairs_distinct inj_on_def)

lemma col_pairs_distinct: "distinct (col_pairs R M N)"
  unfolding col_pairs_def
  by (rule distinct_concat_map)
     (auto simp: distinct_map axis_pairs_distinct inj_on_def)

lemma space_pairs_distinct: "distinct (row_pairs R M N @ col_pairs R M N)"
proof -
  have "set (row_pairs R M N) \<inter> set (col_pairs R M N) = {}"
    unfolding row_pairs_set col_pairs_set by auto
  then show ?thesis by (simp add: row_pairs_distinct col_pairs_distinct)
qed


lemma dist_table_set_int:
  "set (dist_table R n) =
     {[PInt v1, PInt v2] |v1 v2.
        1 \<le> v1 \<and> v1 \<le> int R \<and> 1 \<le> v2 \<and> v2 \<le> int R \<and> \<not> (v1 = v2 \<and> int n + 1 \<le> v1)}"
  (is "_ = ?R")
proof -
  have "{[PInt (int a), PInt (int b)] |a b.
          1 \<le> a \<and> a \<le> R \<and> 1 \<le> b \<and> b \<le> R \<and> \<not> (a = b \<and> n + 1 \<le> a)} = ?R" (is "?L = _")
  proof (intro equalityI subsetI)
    fix t assume "t \<in> ?L"
    then obtain a b where "t = [PInt (int a), PInt (int b)]"
      "1 \<le> a" "a \<le> R" "1 \<le> b" "b \<le> R" "\<not> (a = b \<and> n + 1 \<le> a)" by blast
    then have "t = [PInt (int a), PInt (int b)] \<and> 1 \<le> int a \<and> int a \<le> int R \<and>
        1 \<le> int b \<and> int b \<le> int R \<and> \<not> (int a = int b \<and> int n + 1 \<le> int a)"
      by auto
    then show "t \<in> ?R" by blast
  next
    fix t assume "t \<in> ?R"
    then obtain v1 v2 where t: "t = [PInt v1, PInt v2]"
      and v: "1 \<le> v1" "v1 \<le> int R" "1 \<le> v2" "v2 \<le> int R" "\<not> (v1 = v2 \<and> int n + 1 \<le> v1)"
      by blast
    then have "t = [PInt (int (nat v1)), PInt (int (nat v2))] \<and> 1 \<le> nat v1 \<and> nat v1 \<le> R \<and>
        1 \<le> nat v2 \<and> nat v2 \<le> R \<and> \<not> (nat v1 = nat v2 \<and> n + 1 \<le> nat v1)"
      by auto
    then show "t \<in> ?L" by blast
  qed
  then show ?thesis by (simp only: dist_table_set)
qed

lemma space_con_scope:
  "scope (space_con va T ((r1, c1), (r2, c2))) = [va ! r1 ! c1, va ! r2 ! c2]"
  by (simp add: space_con_def add_satisfying_tuples_def make_constraint_def Constraint_def)

lemma space_con_tuples:
  "sat_tuples (space_con va T ((r1, c1), (r2, c2))) = T ! (dist r1 r2 + dist c1 c2 - 1)"
  by (simp add: space_con_def add_satisfying_tuples_def make_constraint_def Constraint_def)

lemma space_pairs_set:
  "set (row_pairs R M N @ col_pairs R M N) =
     {((r1, c1), (r2, c2)). r1 < N \<and> r2 < N \<and> c1 < M \<and> c2 < M \<and>
        ((r1 = r2 \<and> 1 \<le> dist c1 c2 \<and> dist c1 c2 \<le> R) \<or>
         (c1 = c2 \<and> 1 \<le> dist r1 r2 \<and> dist r1 r2 \<le> R))}"
  unfolding set_append row_pairs_set col_pairs_set by auto

text \<open>
  C2. For two cells of the grid that share a row or a column at distance \<open>d\<close> with
  \<open>1 \<le> d \<le> R\<close>, the constraint \<open>space_constraint\<close> builds for the pair is in its result,
  has the two cells' variables as scope, and its table is the set of all pairs over
  \<open>1..R\<close> without exactly the equal pairs \<open>(v, v)\<close> with \<open>v \<ge> d\<close>.
\<close>

theorem space_constraint_table:
  assumes "grid_dims var_array N M" and "r1 < N" and "r2 < N" and "c1 < M" and "c2 < M"
    and "(r1 = r2 \<and> dist c1 c2 = d) \<or> (c1 = c2 \<and> dist r1 r2 = d)"
    and "1 \<le> d" and "d \<le> R"
  shows "\<exists>T cs. n_dist_tuples R = Inr T \<and> space_constraint var_array R M N = Inr cs \<and>
           space_con var_array T ((r1, c1), (r2, c2)) \<in> set cs \<and>
           scope (space_con var_array T ((r1, c1), (r2, c2))) =
             [var_array ! r1 ! c1, var_array ! r2 ! c2] \<and>
           set (sat_tuples (space_con var_array T ((r1, c1), (r2, c2)))) =
             {[PInt v1, PInt v2] |v1 v2.
                1 \<le> v1 \<and> v1 \<le> int R \<and> 1 \<le> v2 \<and> v2 \<le> int R \<and> \<not> (v1 = v2 \<and> int d \<le> v1)}"
proof -
  from space_constraint_ok[OF assms(1), of R] obtain T where
    T: "n_dist_tuples R = Inr T" "\<forall>n<R. T ! n = dist_table R n"
    and sc: "space_constraint var_array R M N =
               Inr (map (space_con var_array T) (row_pairs R M N @ col_pairs R M N))"
    by blast
  from assms have "((r1, c1), (r2, c2)) \<in> set (row_pairs R M N @ col_pairs R M N)"
    unfolding space_pairs_set by auto
  then have m: "space_con var_array T ((r1, c1), (r2, c2)) \<in>
      set (map (space_con var_array T) (row_pairs R M N @ col_pairs R M N))"
    by (simp only: set_map) (rule imageI)
  from assms(6) have d: "dist r1 r2 + dist c1 c2 = d" by auto
  from assms(7,8) have "d - 1 < R" by simp
  with T(2) have "T ! (d - 1) = dist_table R (d - 1)" by simp
  then have "set (sat_tuples (space_con var_array T ((r1, c1), (r2, c2)))) =
      set (dist_table R (d - 1))"
    by (simp only: space_con_tuples d)
  also have "\<dots> = {[PInt v1, PInt v2] |v1 v2.
                1 \<le> v1 \<and> v1 \<le> int R \<and> 1 \<le> v2 \<and> v2 \<le> int R \<and> \<not> (v1 = v2 \<and> int d \<le> v1)}"
  proof -
    from assms(7) have "int (d - 1) + 1 = int d" by simp
    then show ?thesis by (simp only: dist_table_set_int)
  qed
  finally have tb: "set (sat_tuples (space_con var_array T ((r1, c1), (r2, c2)))) =
      {[PInt v1, PInt v2] |v1 v2.
         1 \<le> v1 \<and> v1 \<le> int R \<and> 1 \<le> v2 \<and> v2 \<le> int R \<and> \<not> (v1 = v2 \<and> int d \<le> v1)}" .
  show ?thesis
    by (rule exI[of _ T], rule exI[of _ "map (space_con var_array T) (row_pairs R M N @ col_pairs R M N)"])
       (intro conjI T(1) sc m space_con_scope tb)
qed

theorem space_constraint_table_witness:
  "grid_dims (new_var_array 3 1) 1 3 \<and> dist 0 2 = 2 \<and>
   (\<exists>T cs. n_dist_tuples 3 = Inr T \<and> space_constraint (new_var_array 3 1) 3 3 1 = Inr cs \<and>
      space_con (new_var_array 3 1) T ((0, 0), (0, 2)) \<in> set cs \<and>
      scope (space_con (new_var_array 3 1) T ((0, 0), (0, 2))) =
        [new_var_array 3 1 ! 0 ! 0, new_var_array 3 1 ! 0 ! 2] \<and>
      set (sat_tuples (space_con (new_var_array 3 1) T ((0, 0), (0, 2)))) =
        {[PInt v1, PInt v2] |v1 v2.
           1 \<le> v1 \<and> v1 \<le> int 3 \<and> 1 \<le> v2 \<and> v2 \<le> int 3 \<and> \<not> (v1 = v2 \<and> int 2 \<le> v1)})"
proof -
  have g: "grid_dims (new_var_array 3 1) 1 3" by (rule new_var_array_dims)
  have d: "dist 0 2 = 2" by (simp add: dist_def)
  have p: "(0 = (0::nat) \<and> dist 0 2 = 2) \<or> ((0::nat) = 2 \<and> dist 0 0 = 2)" using d by simp
  show ?thesis
    by (intro conjI g d space_constraint_table[OF g _ _ _ _ p]) simp_all
qed

text \<open>
  C5. On a grid of \<open>N\<close> rows and \<open>M\<close> columns, the result of \<open>space_constraint\<close> is one
  constraint for each entry of the list of ordered pairs of cells, rows first and columns
  after; that list has no repetition and holds exactly the ordered pairs of cells of a
  common row or column whose distance is between \<open>1\<close> and \<open>R\<close>. The constraint of a
  pair has the two variables as scope, in the pair's order, and the table of the pair's
  distance. A pair at a distance beyond \<open>R\<close> is not in the list and gets no constraint.
\<close>

theorem space_constraint_pairs:
  assumes "grid_dims var_array N M"
  shows "\<exists>T. n_dist_tuples R = Inr T \<and>
           space_constraint var_array R M N =
             Inr (map (space_con var_array T) (row_pairs R M N @ col_pairs R M N)) \<and>
           distinct (row_pairs R M N @ col_pairs R M N) \<and>
           set (row_pairs R M N @ col_pairs R M N) =
             {((r1, c1), (r2, c2)). r1 < N \<and> r2 < N \<and> c1 < M \<and> c2 < M \<and>
                ((r1 = r2 \<and> 1 \<le> dist c1 c2 \<and> dist c1 c2 \<le> R) \<or>
                 (c1 = c2 \<and> 1 \<le> dist r1 r2 \<and> dist r1 r2 \<le> R))} \<and>
           (\<forall>r1 c1 r2 c2.
              scope (space_con var_array T ((r1, c1), (r2, c2))) =
                [var_array ! r1 ! c1, var_array ! r2 ! c2] \<and>
              sat_tuples (space_con var_array T ((r1, c1), (r2, c2))) =
                T ! (dist r1 r2 + dist c1 c2 - 1))"
proof -
  from space_constraint_ok[OF assms, of R] obtain T where
    "n_dist_tuples R = Inr T"
    "space_constraint var_array R M N =
       Inr (map (space_con var_array T) (row_pairs R M N @ col_pairs R M N))"
    by blast
  then show ?thesis
    using space_pairs_distinct[of R M N] space_pairs_set[of R M N] space_con_scope space_con_tuples
    by (intro exI[of _ T] conjI allI) assumption+
qed

theorem space_constraint_pairs_witness:
  "grid_dims (new_var_array 3 1) 1 3 \<and>
   (\<exists>T. n_dist_tuples 1 = Inr T \<and>
      space_constraint (new_var_array 3 1) 1 3 1 =
        Inr (map (space_con (new_var_array 3 1) T) (row_pairs 1 3 1 @ col_pairs 1 3 1)) \<and>
      distinct (row_pairs 1 3 1 @ col_pairs 1 3 1) \<and>
      set (row_pairs 1 3 1 @ col_pairs 1 3 1) =
        {((r1, c1), (r2, c2)). r1 < 1 \<and> r2 < 1 \<and> c1 < 3 \<and> c2 < 3 \<and>
           ((r1 = r2 \<and> 1 \<le> dist c1 c2 \<and> dist c1 c2 \<le> 1) \<or>
            (c1 = c2 \<and> 1 \<le> dist r1 r2 \<and> dist r1 r2 \<le> 1))} \<and>
      (\<forall>r1 c1 r2 c2.
         scope (space_con (new_var_array 3 1) T ((r1, c1), (r2, c2))) =
           [new_var_array 3 1 ! r1 ! c1, new_var_array 3 1 ! r2 ! c2] \<and>
         sat_tuples (space_con (new_var_array 3 1) T ((r1, c1), (r2, c2))) =
           T ! (dist r1 r2 + dist c1 c2 - 1)))"
proof -
  have g: "grid_dims (new_var_array 3 1) 1 3" by (rule new_var_array_dims)
  show ?thesis by (intro conjI g space_constraint_pairs[OF g])
qed

lemma clue_update_Variable:
  "clue_update k val (Variable n) =
     (if val \<noteq> PInt 0 then \<lparr>var_name = n, domain = [val], assignedValue = Some val\<rparr>
      else \<lparr>var_name = n, domain = pool k, assignedValue = None\<rparr>)"
  by (simp add: clue_update_def Variable_def add_domain_values_def assign_def)

lemma make_variable_at:
  assumes b: "board_ok b N M" and r: "rooms_in_grid N M rooms" and d: "distinct (concat rooms)"
    and m: "room \<in> set rooms" and c: "(i, j) \<in> set room"
  shows "\<exists>g. make_variable b rooms M N = Inr g \<and> grid_dims g N M \<and>
           g ! nat i ! nat j =
             clue_update (length room) (b ! nat (i * 2) ! nat (j * 2))
               (Variable (''V'' @ string_of_nat (nat i) @ '','' @ string_of_nat (nat j)))"
proof -
  let ?g = "fold (room_pure b) rooms (new_var_array M N)"
  from rooms_in_gridD[OF r m c] have ij: "0 \<le> i" "i < int N" "0 \<le> j" "j < int M"
    by (auto simp: in_grid_def)
  then have c': "(int (nat i), int (nat j)) \<in> set room" using c by simp
  from rooms_pure_hit[OF new_var_array_dims r d m c', of b]
  have "?g ! nat i ! nat j =
      clue_update (length room) (clue_at b (int (nat i), int (nat j)))
        (new_var_array M N ! nat i ! nat j)" .
  moreover have "new_var_array M N ! nat i ! nat j =
      Variable (''V'' @ string_of_nat (nat i) @ '','' @ string_of_nat (nat j))"
    using ij by (intro new_var_array_nth) auto
  moreover have "clue_at b (int (nat i), int (nat j)) = b ! nat (i * 2) ! nat (j * 2)"
    using ij by (simp add: clue_at_def)
  ultimately show ?thesis using make_variable_in[OF b r] by simp
qed

lemma make_variable_uncovered:
  assumes b: "board_ok b N M" and r: "rooms_in_grid N M rooms"
    and p: "p < N" and q: "q < M" and c: "(int p, int q) \<notin> set (concat rooms)"
  shows "\<exists>g. make_variable b rooms M N = Inr g \<and> grid_dims g N M \<and>
           g ! p ! q = Variable (''V'' @ string_of_nat p @ '','' @ string_of_nat q)"
  using rooms_pure_frame[OF new_var_array_dims r c, of b] new_var_array_nth[OF p q]
    make_variable_in[OF b r]
  by simp

lemma scope_in:
  "grid_dims g N M \<Longrightarrow> list_all (in_grid N M) room \<Longrightarrow>
     mapE (grid_get g) room = Inr (map (\<lambda>c. g ! nat (fst c) ! nat (snd c)) room)"
proof (induction room)
  case Nil
  then show ?case by simp
next
  case (Cons c room)
  obtain i j where c: "c = (i, j)" by (cases c)
  from Cons.prems c have ij: "0 \<le> i" "i < int N" "0 \<le> j" "j < int M"
    by (auto simp: in_grid_def)
  with Cons.prems(1) have "grid_at g (nat i) (nat j) = Inr (g ! nat i ! nat j)"
    by (intro grid_at_in) auto
  with ij have "grid_get g c = Inr (g ! nat i ! nat j)" by (simp add: grid_at_def c)
  with Cons show ?case by (simp add: c)
qed

lemma fixed_values_set:
  "set (fixed_values sc) = {v. \<exists>var\<in>set sc. assignedValue var = Some v}"
  by (induction sc) (auto simp: fixed_values_Cons split: option.splits)

lemma room_constraint_error:
  assumes "mapE (grid_get g) room = Inr sc" and "room_constraint g room k = Inl e"
  shows "e = ValueError"
proof -
  from assms have "remove_assigned (enumerate_list sc) [] (pool (length room)) = Inl e"
    by (auto simp: room_constraint_def split: sum.splits prod.splits)
  then show ?thesis by (rule remove_assigned_Inl)
qed

lemma room_constraint_needs_sub:
  assumes sc: "mapE (grid_get g) room = Inr sc"
    and n: "\<not> mset (fixed_values sc) \<subseteq># mset (pool (length room))"
  shows "room_constraint g room k = Inl ValueError"
proof (cases "remove_assigned (enumerate_list sc) [] (pool (length room))")
  case (Inl e)
  then have "e = ValueError" by (rule remove_assigned_Inl)
  with Inl sc show ?thesis by (simp add: room_constraint_def)
next
  case (Inr res)
  obtain fd it' where res: "res = (fd, it')" by (cases res)
  from remove_assigned_Inr[of 0 sc "[]" "pool (length room)" fd it'] Inr res
  have "mset (pool (length room)) = mset it' + mset (fixed_values sc)"
    by (simp add: enumerate_list_def)
  then have "mset (fixed_values sc) \<subseteq># mset (pool (length room))" by simp
  with n show ?thesis by simp
qed

lemma room_constraint_bad_value:
  assumes sc: "mapE (grid_get g) room = Inr sc"
    and var: "var \<in> set sc" "assignedValue var = Some v" and v: "v \<notin> set (pool (length room))"
  shows "room_constraint g room k = Inl ValueError"
proof (rule room_constraint_needs_sub[OF sc], rule notI)
  assume "mset (fixed_values sc) \<subseteq># mset (pool (length room))"
  then have "set (fixed_values sc) \<subseteq> set (pool (length room))"
    by (metis set_mset_mono set_mset_mset)
  moreover from var have "v \<in> set (fixed_values sc)" by (auto simp: fixed_values_set)
  ultimately show False using v by auto
qed

lemma fixed_values_nth:
  "j < length sc \<Longrightarrow> assignedValue (sc ! j) = Some v \<Longrightarrow> v \<in> set (fixed_values sc)"
  by (auto simp: fixed_values_set)

lemma fixed_values_twice:
  "i < j \<Longrightarrow> j < length sc \<Longrightarrow> assignedValue (sc ! i) = Some v \<Longrightarrow>
     assignedValue (sc ! j) = Some v \<Longrightarrow> \<not> distinct (fixed_values sc)"
proof (induction sc arbitrary: i j)
  case Nil
  then show ?case by simp
next
  case (Cons var sc)
  from Cons.prems obtain j' where j: "j = Suc j'" by (cases j) auto
  show ?case
  proof (cases i)
    case 0
    with Cons.prems j have "assignedValue var = Some v" "v \<in> set (fixed_values sc)"
      by (auto intro: fixed_values_nth)
    then show ?thesis by (simp add: fixed_values_Cons)
  next
    case (Suc i')
    with Cons.prems j have "\<not> distinct (fixed_values sc)"
      by (intro Cons.IH[of i' j']) auto
    then show ?thesis by (simp add: fixed_values_Cons split: option.splits)
  qed
qed

lemma mapE_fail:
  "x \<in> set xs \<Longrightarrow> f x = Inl E \<Longrightarrow> (\<And>y e. y \<in> set xs \<Longrightarrow> f y = Inl e \<Longrightarrow> e = E) \<Longrightarrow>
     mapE f xs = Inl E"
proof (induction xs)
  case Nil
  then show ?case by simp
next
  case (Cons y xs)
  show ?case
  proof (cases "f y")
    case (Inl e)
    with Cons.prems(3)[of y e] show ?thesis by simp
  next
    case (Inr z)
    with Cons.prems(1,2) have "x \<in> set xs" by auto
    then have "mapE f xs = Inl E"
    proof (rule Cons.IH)
      show "f x = Inl E" by (rule Cons.prems(2))
      fix y e assume "y \<in> set xs" "f y = Inl e"
      then show "e = E" using Cons.prems(3)[of y e] by simp
    qed
    with Inr show ?thesis by simp
  qed
qed

lemma enumerate_list_set:
  "set (enumerate_list xs) = {(k, xs ! k) |k. k < length xs}"
proof (intro equalityI subsetI)
  fix p assume "p \<in> set (enumerate_list xs)"
  then obtain i where "p = ([0..<length xs] ! i, xs ! i)" "i < length xs"
    by (auto simp: enumerate_list_def set_zip)
  then have "p = (i, xs ! i) \<and> i < length xs" by simp
  then show "p \<in> {(k, xs ! k) |k. k < length xs}" by blast
next
  fix p assume "p \<in> {(k, xs ! k) |k. k < length xs}"
  then obtain k where "p = (k, xs ! k)" "k < length xs" by blast
  then have "p = ([0..<length xs] ! k, xs ! k) \<and> k < min (length [0..<length xs]) (length xs)"
    by simp
  then show "p \<in> set (enumerate_list xs)"
    unfolding enumerate_list_def set_zip by blast
qed

lemma board_dims:
  assumes "board_ok b N M"
  shows "py_index b 0 = Inr (b ! 0)" and "(length (b ! 0) + 1) div 2 = M"
    and "(length b + 1) div 2 = N"
proof -
  from assms have l: "0 < length b" "length b = 2 * N - 1" "0 < N" "0 < M"
    by (auto simp: board_ok_def)
  then show "py_index b 0 = Inr (b ! 0)" by (simp add: py_index_def py_pos_def)
  from assms l have "length (b ! 0) = 2 * M - 1" by (simp add: board_ok_def list_all_length)
  with l show "(length (b ! 0) + 1) div 2 = M" by simp
  from l show "(length b + 1) div 2 = N" by simp
qed

lemma ripple_unfold:
  assumes "board_ok b N M"
  shows "ripple_effect_csp_model b rooms =
     (case make_variable b rooms M N of Inl e \<Rightarrow> Inl e | Inr var_array \<Rightarrow>
       (case mapE (\<lambda>(k, room). room_constraint var_array room (k + 1)) (enumerate_list rooms)
        of Inl e \<Rightarrow> Inl e | Inr room_cons \<Rightarrow>
         (case py_max (map length rooms) of Inl e \<Rightarrow> Inl e | Inr max_rsize \<Rightarrow>
           (case space_constraint var_array max_rsize M N of Inl e \<Rightarrow> Inl e
            | Inr space_cons \<Rightarrow>
               Inr (fold add_constraint space_cons
                     (fold add_constraint room_cons
                       (fold add_room rooms
                         (fold (\<lambda>row. fold add_var row) var_array
                           (CSP ''Ripple_Effect'')))),
                    var_array)))))"
  by (simp only: ripple_effect_csp_model_def board_dims[OF assms] Let_def sum.case)

lemma ripple_room_failure:
  assumes b: "board_ok b N M" and mv: "make_variable b rooms M N = Inr g"
    and sc: "\<And>room. room \<in> set rooms \<Longrightarrow> \<exists>sc. mapE (grid_get g) room = Inr sc"
    and m: "room \<in> set rooms" and f: "\<And>k. room_constraint g room k = Inl ValueError"
  shows "ripple_effect_csp_model b rooms = Inl ValueError"
proof -
  from m obtain k where k: "k < length rooms" "rooms ! k = room" by (auto simp: in_set_conv_nth)
  have "mapE (\<lambda>(k, room). room_constraint g room (k + 1)) (enumerate_list rooms) = Inl ValueError"
  proof (rule mapE_fail[of "(k, room)"])
    show "(k, room) \<in> set (enumerate_list rooms)" using k by (auto simp: enumerate_list_set)
    show "(case (k, room) of (k, room) \<Rightarrow> room_constraint g room (k + 1)) = Inl ValueError"
      by (simp add: f)
  next
    fix y e assume y: "y \<in> set (enumerate_list rooms)"
      and e: "(case y of (k, room) \<Rightarrow> room_constraint g room (k + 1)) = Inl e"
    obtain k' r' where y': "y = (k', r')" by (cases y)
    with y have "r' \<in> set rooms" by (auto simp: enumerate_list_set)
    from sc[OF this] obtain sc' where "mapE (grid_get g) r' = Inr sc'" by blast
    then show "e = ValueError" using e y' by (auto dest: room_constraint_error)
  qed
  then show ?thesis
    by (simp only: ripple_unfold[OF b] mv sum.case)
qed


text \<open>
  C6. On a well-formed board with rooms inside the grid that share no cell, after
  \<open>make_variable\<close> the variable of a cell \<open>(i, j)\<close> of a room of size \<open>k\<close> has domain
  \<open>1..k\<close> and no assignment when the board holds \<open>0\<close> at \<open>(2i, 2j)\<close>, and otherwise is
  assigned the board's value \<open>c\<close> with the one-element domain \<open>[c]\<close>.
\<close>

theorem make_variable_cell:
  assumes "board_ok board N M" and "rooms_in_grid N M rooms" and "distinct (concat rooms)"
    and "room \<in> set rooms" and "(i, j) \<in> set room"
  shows "\<exists>var_array. make_variable board rooms M N = Inr var_array \<and>
           (board ! nat (i * 2) ! nat (j * 2) = PInt 0 \<longrightarrow>
              domain (var_array ! nat i ! nat j) = map PInt [1..int (length room)] \<and>
              assignedValue (var_array ! nat i ! nat j) = None) \<and>
           (board ! nat (i * 2) ! nat (j * 2) \<noteq> PInt 0 \<longrightarrow>
              assignedValue (var_array ! nat i ! nat j) = Some (board ! nat (i * 2) ! nat (j * 2)) \<and>
              domain (var_array ! nat i ! nat j) = [board ! nat (i * 2) ! nat (j * 2)])"
proof -
  from make_variable_at[OF assms] obtain g where
    g: "make_variable board rooms M N = Inr g"
    and v: "g ! nat i ! nat j =
             clue_update (length room) (board ! nat (i * 2) ! nat (j * 2))
               (Variable (''V'' @ string_of_nat (nat i) @ '','' @ string_of_nat (nat j)))"
    by blast
  show ?thesis
    by (rule exI[of _ g]) (simp add: g v clue_update_Variable pool_upto)
qed

theorem make_variable_cell_witness:
  "board_ok [[PInt 0, PStr ''|'', PInt 2]] 1 2 \<and> rooms_in_grid 1 2 [[(0, 0), (0, 1)]] \<and>
   (\<exists>var_array. make_variable [[PInt 0, PStr ''|'', PInt 2]] [[(0, 0), (0, 1)]] 2 1 = Inr var_array \<and>
      domain (var_array ! 0 ! 0) = [PInt 1, PInt 2] \<and> assignedValue (var_array ! 0 ! 0) = None \<and>
      domain (var_array ! 0 ! 1) = [PInt 2] \<and> assignedValue (var_array ! 0 ! 1) = Some (PInt 2))"
proof -
  let ?b = "[[PInt 0, PStr ''|'', PInt 2]]"
  let ?rooms = "[[(0, 0), (0, 1)]] :: room list"
  have b: "board_ok ?b 1 2" by (simp add: board_ok_def)
  have r: "rooms_in_grid 1 2 ?rooms" by (simp add: rooms_in_grid_def in_grid_def)
  have d: "distinct (concat ?rooms)" by simp
  have m: "[(0, 0), (0, 1)] \<in> set ?rooms" by simp
  have u: "[1..2] = [1, 2::int]" by (simp add: upto_rec1)
  from make_variable_cell[OF b r d m, of 0 0] make_variable_cell[OF b r d m, of 0 1]
  have "\<exists>var_array. make_variable ?b ?rooms 2 1 = Inr var_array \<and>
      domain (var_array ! 0 ! 0) = [PInt 1, PInt 2] \<and> assignedValue (var_array ! 0 ! 0) = None \<and>
      domain (var_array ! 0 ! 1) = [PInt 2] \<and> assignedValue (var_array ! 0 ! 1) = Some (PInt 2)"
    by (auto simp: u)
  with b r show ?thesis by blast
qed

text \<open>
  C3, as the code behaves. A board with the clue \<open>5\<close> in a room of one cell: the
  construction ends with \<open>ValueError\<close> and returns no model.
\<close>

theorem out_of_range_clue_raises:
  "ripple_effect_csp_model [[PInt 5]] [[(0, 0)]] = Inl ValueError"
  by code_simp

text \<open>
  C3, amended. On a well-formed board with rooms inside the grid that share no cell, a
  clue \<open>c\<close> greater than the size of its room is accepted by \<open>make_variable\<close> without a
  range check: the cell's variable ends assigned \<open>c\<close> with the one-element domain \<open>[c]\<close>.
  \<open>room_constraint\<close> for that room then raises \<open>ValueError\<close> when it removes \<open>c\<close> from
  the pool \<open>1..k\<close>, and \<open>ripple_effect_csp_model\<close> raises \<open>ValueError\<close> and returns no
  model.
\<close>

theorem out_of_range_clue:
  assumes "board_ok board N M" and "rooms_in_grid N M rooms" and "distinct (concat rooms)"
    and "room \<in> set rooms" and "(i, j) \<in> set room"
    and "board ! nat (i * 2) ! nat (j * 2) = PInt c" and "int (length room) < c"
  shows "\<exists>var_array. make_variable board rooms M N = Inr var_array \<and>
           domain (var_array ! nat i ! nat j) = [PInt c] \<and>
           assignedValue (var_array ! nat i ! nat j) = Some (PInt c) \<and>
           (\<forall>k. room_constraint var_array room k = Inl ValueError) \<and>
           ripple_effect_csp_model board rooms = Inl ValueError"
proof -
  from make_variable_at[OF assms(1-5)] obtain g where
    g: "make_variable board rooms M N = Inr g" and dims: "grid_dims g N M"
    and v: "g ! nat i ! nat j =
             clue_update (length room) (board ! nat (i * 2) ! nat (j * 2))
               (Variable (''V'' @ string_of_nat (nat i) @ '','' @ string_of_nat (nat j)))"
    by blast
  from assms(7) have c0: "PInt c \<noteq> PInt 0" by auto
  from v c0 have dom: "domain (g ! nat i ! nat j) = [PInt c]"
    and asg: "assignedValue (g ! nat i ! nat j) = Some (PInt c)"
    by (simp_all add: assms(6) clue_update_Variable)
  have sc: "mapE (grid_get g) r = Inr (map (\<lambda>c. g ! nat (fst c) ! nat (snd c)) r)"
    if "r \<in> set rooms" for r
    using assms(2) that by (intro scope_in[OF dims]) (simp add: rooms_in_grid_def list_all_iff)
  have mem: "g ! nat i ! nat j \<in> set (map (\<lambda>c. g ! nat (fst c) ! nat (snd c)) room)"
    using assms(5) by (force simp: image_iff)
  have out: "PInt c \<notin> set (pool (length room))"
    using assms(7) by (auto simp: pool_set)
  have rc: "room_constraint g room k = Inl ValueError" for k
    by (rule room_constraint_bad_value[OF sc[OF assms(4)] mem asg out])
  have "ripple_effect_csp_model board rooms = Inl ValueError"
  proof (rule ripple_room_failure[OF assms(1) g _ assms(4) rc])
    fix r assume "r \<in> set rooms"
    from sc[OF this] show "\<exists>sc. mapE (grid_get g) r = Inr sc" by blast
  qed
  with g dom asg rc show ?thesis by blast
qed

theorem out_of_range_clue_witness:
  "board_ok [[PInt 0, PStr ''|'', PInt 3]] 1 2 \<and> rooms_in_grid 1 2 [[(0, 0), (0, 1)]] \<and>
   (\<exists>var_array. make_variable [[PInt 0, PStr ''|'', PInt 3]] [[(0, 0), (0, 1)]] 2 1 = Inr var_array \<and>
      domain (var_array ! 0 ! 1) = [PInt 3] \<and>
      assignedValue (var_array ! 0 ! 1) = Some (PInt 3) \<and>
      (\<forall>k. room_constraint var_array [(0, 0), (0, 1)] k = Inl ValueError) \<and>
      ripple_effect_csp_model [[PInt 0, PStr ''|'', PInt 3]] [[(0, 0), (0, 1)]] = Inl ValueError)"
proof -
  let ?b = "[[PInt 0, PStr ''|'', PInt 3]]"
  let ?rooms = "[[(0, 0), (0, 1)]] :: room list"
  have b: "board_ok ?b 1 2" by (simp add: board_ok_def)
  have r: "rooms_in_grid 1 2 ?rooms" by (simp add: rooms_in_grid_def in_grid_def)
  have d: "distinct (concat ?rooms)" by simp
  have m: "[(0, 0), (0, 1)] \<in> set ?rooms" by simp
  have c: "(0, 1) \<in> set [(0, 0), (0, 1 :: int)]" by simp
  have v: "?b ! nat (0 * 2) ! nat (1 * 2) = PInt 3" by simp
  have l: "int (length [(0, 0), (0, 1 :: int)]) < 3" by simp
  from out_of_range_clue[OF b r d m c v l]
  have "\<exists>var_array. make_variable ?b ?rooms 2 1 = Inr var_array \<and>
      domain (var_array ! 0 ! 1) = [PInt 3] \<and>
      assignedValue (var_array ! 0 ! 1) = Some (PInt 3) \<and>
      (\<forall>k. room_constraint var_array [(0, 0), (0, 1)] k = Inl ValueError) \<and>
      ripple_effect_csp_model ?b ?rooms = Inl ValueError"
    by simp
  with b r show ?thesis by blast
qed

text \<open>
  C4, as the code behaves. A room of two cells that are both assigned \<open>1\<close>:
  \<open>room_constraint\<close> raises \<open>ValueError\<close> and builds no constraint.
\<close>

theorem conflicting_clues_raise:
  "room_constraint
     [[\<lparr>var_name = ''V0,0'', domain = [PInt 1], assignedValue = Some (PInt 1)\<rparr>,
       \<lparr>var_name = ''V0,1'', domain = [PInt 1], assignedValue = Some (PInt 1)\<rparr>]]
     [(0, 0), (0, 1)] 1 = Inl ValueError"
  by code_simp

text \<open>
  C4, amended. For a room whose scope resolves and in which two scope positions are
  assigned the same value, \<open>room_constraint\<close> does not complete: removing the value from
  the pool a second time raises \<open>ValueError\<close>, and no constraint is built.
\<close>

theorem room_constraint_conflict:
  assumes "mapE (grid_get var_array) room = Inr sc"
    and "i < j" and "j < length sc"
    and "assignedValue (sc ! i) = Some v" and "assignedValue (sc ! j) = Some v"
  shows "room_constraint var_array room k = Inl ValueError"
proof (rule room_constraint_needs_sub[OF assms(1)], rule notI)
  assume "mset (fixed_values sc) \<subseteq># mset (pool (length room))"
  then obtain zs where z: "mset (pool (length room)) = mset (fixed_values sc) + zs"
    by (auto simp: mset_subset_eq_exists_conv)
  obtain ys where y: "zs = mset ys" by (metis ex_mset)
  have "distinct (fixed_values sc)"
    by (rule mset_append_distinct[OF z[unfolded y] pool_distinct])
  with fixed_values_twice[OF assms(2-5)] show False by (rule notE)
qed

theorem room_constraint_conflict_witness:
  "mapE (grid_get [[\<lparr>var_name = ''V0,0'', domain = [PInt 2], assignedValue = Some (PInt 2)\<rparr>,
                    Variable ''V0,1'',
                    \<lparr>var_name = ''V0,2'', domain = [PInt 2], assignedValue = Some (PInt 2)\<rparr>]])
      [(0, 0), (0, 1), (0, 2)] =
     Inr [\<lparr>var_name = ''V0,0'', domain = [PInt 2], assignedValue = Some (PInt 2)\<rparr>,
          Variable ''V0,1'',
          \<lparr>var_name = ''V0,2'', domain = [PInt 2], assignedValue = Some (PInt 2)\<rparr>] \<and>
   room_constraint [[\<lparr>var_name = ''V0,0'', domain = [PInt 2], assignedValue = Some (PInt 2)\<rparr>,
                     Variable ''V0,1'',
                     \<lparr>var_name = ''V0,2'', domain = [PInt 2], assignedValue = Some (PInt 2)\<rparr>]]
      [(0, 0), (0, 1), (0, 2)] 1 = Inl ValueError"
proof -
  let ?a = "\<lparr>var_name = ''V0,0'', domain = [PInt 2], assignedValue = Some (PInt 2)\<rparr>"
  let ?c = "\<lparr>var_name = ''V0,2'', domain = [PInt 2], assignedValue = Some (PInt 2)\<rparr>"
  let ?sc = "[?a, Variable ''V0,1'', ?c]"
  have h: "mapE (grid_get [?sc]) [(0, 0), (0, 1), (0, 2)] = Inr ?sc"
    by (simp add: grid_get_def py_index_def py_pos_def)
  have "room_constraint [?sc] [(0, 0), (0, 1), (0, 2)] 1 = Inl ValueError"
    by (rule room_constraint_conflict[OF h, of 0 2 "PInt 2"]) simp_all
  with h show ?thesis by (intro conjI)
qed

text \<open>
  C7, as the code behaves. On a board of two rows and one column, the room \<open>[(-1, 0)]\<close>
  is outside the grid, but Python's negative index reads the last row: \<open>make_variable\<close>
  returns a grid in which the variable of cell \<open>(1, 0)\<close> was changed and assigned the
  separator found at board row \<open>-2\<close>, and the construction ends later, in
  \<open>room_constraint\<close>, with \<open>ValueError\<close>.
\<close>

theorem negative_coordinate_wraps:
  "make_variable [[PInt 0], [PStr ''-''], [PInt 0]] [[(0, 0)], [(- 1, 0)]] 1 2 =
     Inr [[\<lparr>var_name = ''V0,0'', domain = [PInt 1], assignedValue = None\<rparr>],
          [\<lparr>var_name = ''V1,0'', domain = [PStr ''-''], assignedValue = Some (PStr ''-'')\<rparr>]] \<and>
   ripple_effect_csp_model [[PInt 0], [PStr ''-''], [PInt 0]] [[(0, 0)], [(- 1, 0)]] =
     Inl ValueError"
  by code_simp

lemma fixed_values_map:
  "(\<And>x. x \<in> set xs \<Longrightarrow> assignedValue (f x) = (if g x = PInt 0 then None else Some (g x))) \<Longrightarrow>
     fixed_values (map f xs) = filter (\<lambda>v. v \<noteq> PInt 0) (map g xs)"
  by (induction xs) (auto simp: fixed_values_Cons)

lemma mapE_ok:
  "(\<And>x. x \<in> set xs \<Longrightarrow> \<exists>y. f x = Inr y) \<Longrightarrow> \<exists>ys. mapE f xs = Inr ys"
proof (induction xs)
  case Nil
  then show ?case by simp
next
  case (Cons x xs)
  from Cons.prems[of x] obtain y where y: "f x = Inr y" by auto
  have "\<exists>ys. mapE f xs = Inr ys"
  proof (rule Cons.IH)
    fix z assume "z \<in> set xs"
    then show "\<exists>y. f z = Inr y" using Cons.prems[of z] by simp
  qed
  then obtain ys where "mapE f xs = Inr ys" by blast
  with y show ?case by simp
qed

lemma mapE_set:
  "mapE f xs = Inr ys \<Longrightarrow> y \<in> set ys \<Longrightarrow> \<exists>x\<in>set xs. f x = Inr y"
proof (induction xs arbitrary: ys)
  case Nil
  then show ?case by simp
next
  case (Cons x xs)
  from Cons.prems(1) obtain z zs where z: "f x = Inr z" "mapE f xs = Inr zs" "ys = z # zs"
    by (auto split: sum.splits)
  show ?case
  proof (cases "y = z")
    case True
    with z show ?thesis by simp
  next
    case False
    with Cons.prems(2) z have "y \<in> set zs" by simp
    from Cons.IH[OF z(2) this] show ?thesis by auto
  qed
qed

lemma fold_add_var: "fold add_var row c = c\<lparr>vars := vars c @ row\<rparr>"
  by (induction row arbitrary: c) (auto simp: add_var_def)

lemma fold_add_vars: "fold (\<lambda>row. fold add_var row) g c = c\<lparr>vars := vars c @ concat g\<rparr>"
  by (induction g arbitrary: c) (auto simp: fold_add_var)

lemma fold_add_room: "fold add_room rs c = c\<lparr>rooms_of := rooms_of c @ rs\<rparr>"
  by (induction rs arbitrary: c) (auto simp: add_room_def)

lemma fold_add_constraint: "fold add_constraint ks c = c\<lparr>cons := cons c @ ks\<rparr>"
  by (induction ks arbitrary: c) (auto simp: add_constraint_def)

lemma csp_assembled:
  "fold add_constraint space_cons
     (fold add_constraint room_cons
       (fold add_room rooms
         (fold (\<lambda>row. fold add_var row) var_array (CSP ''Ripple_Effect'')))) =
   \<lparr>csp_name = ''Ripple_Effect'', vars = concat var_array, rooms_of = rooms,
    cons = room_cons @ space_cons\<rparr>"
  by (simp add: fold_add_constraint fold_add_room fold_add_vars CSP_def)

lemma py_max_ok: "xs \<noteq> [] \<Longrightarrow> py_max xs = Inr (Max (set xs))"
  by (cases xs) (simp_all add: py_max_def Max.set_eq_fold del: set_simps)

lemma assigned_clue_update:
  "assignedValue (clue_update k val (Variable n)) = (if val = PInt 0 then None else Some val)"
  by (simp add: clue_update_Variable)

lemma room_constraints_ok:
  assumes b: "board_ok b N M" and r: "rooms_in_grid N M rooms" and d: "distinct (concat rooms)"
    and c: "list_all (clues_ok b) rooms" and g: "g = fold (room_pure b) rooms (new_var_array M N)"
    and m: "room \<in> set rooms"
  shows "\<exists>con. room_constraint g room k = Inr con \<and>
           scope con = map (\<lambda>c. g ! nat (fst c) ! nat (snd c)) room"
proof -
  have dims: "grid_dims g N M" unfolding g by (rule make_variable_in(2)[OF b r])
  from r m have inr: "list_all (in_grid N M) room" by (simp add: rooms_in_grid_def list_all_iff)
  let ?sc = "map (\<lambda>c. g ! nat (fst c) ! nat (snd c)) room"
  have sc: "mapE (grid_get g) room = Inr ?sc" by (rule scope_in[OF dims inr])
  have av: "assignedValue (g ! nat (fst x) ! nat (snd x)) =
              (if clue_at b x = PInt 0 then None else Some (clue_at b x))" if x: "x \<in> set room" for x
  proof -
    obtain i j where xy: "x = (i, j)" by (cases x)
    from inr x xy have ij: "0 \<le> i" "i < int N" "0 \<le> j" "j < int M"
      by (auto simp: list_all_iff in_grid_def)
    then have x': "(int (nat i), int (nat j)) \<in> set room" using x xy by simp
    from rooms_pure_hit[OF new_var_array_dims r d m x', of b] ij
    have "g ! nat i ! nat j =
        clue_update (length room) (clue_at b (i, j)) (new_var_array M N ! nat i ! nat j)"
      by (simp add: g)
    also have "new_var_array M N ! nat i ! nat j =
        Variable (''V'' @ string_of_nat (nat i) @ '','' @ string_of_nat (nat j))"
      using ij by (intro new_var_array_nth) auto
    finally show ?thesis by (simp only: xy fst_conv snd_conv assigned_clue_update)
  qed
  have fv: "fixed_values ?sc = filter (\<lambda>v. v \<noteq> PInt 0) (map (clue_at b) room)"
    by (rule fixed_values_map) (rule av)
  from c m have ok: "clues_ok b room" by (simp add: list_all_iff)
  have d': "distinct (fixed_values ?sc)" using ok by (simp only: fv clues_ok_def)
  have s': "set (fixed_values ?sc) \<subseteq> set (pool (length room))"
    using ok unfolding fv clues_ok_def list_all_iff by blast
  from room_constraint_result[OF sc d' s', of k] show ?thesis by auto
qed

lemma ripple_ok:
  assumes b: "board_ok b N M" and r: "rooms_in_grid N M rooms" and d: "distinct (concat rooms)"
    and c: "list_all (clues_ok b) rooms" and ne: "rooms \<noteq> []"
  shows "\<exists>g room_cons T.
           make_variable b rooms M N = Inr g \<and> grid_dims g N M \<and>
           mapE (\<lambda>(k, room). room_constraint g room (k + 1)) (enumerate_list rooms) = Inr room_cons \<and>
           n_dist_tuples (Max (set (map length rooms))) = Inr T \<and>
           ripple_effect_csp_model b rooms =
             Inr (\<lparr>csp_name = ''Ripple_Effect'', vars = concat g, rooms_of = rooms,
                   cons = room_cons @
                     map (space_con g T)
                       (row_pairs (Max (set (map length rooms))) M N @
                        col_pairs (Max (set (map length rooms))) M N)\<rparr>, g)"
proof -
  let ?g = "fold (room_pure b) rooms (new_var_array M N)"
  let ?R = "Max (set (map length rooms))"
  have mv: "make_variable b rooms M N = Inr ?g" and dims: "grid_dims ?g N M"
    by (rule make_variable_in[OF b r])+
  have "\<exists>rcs. mapE (\<lambda>(k, room). room_constraint ?g room (k + 1)) (enumerate_list rooms) = Inr rcs"
  proof (rule mapE_ok)
    fix x assume "x \<in> set (enumerate_list rooms)"
    then obtain k where x: "x = (k, rooms ! k)" "k < length rooms"
      by (auto simp: enumerate_list_set)
    then have "rooms ! k \<in> set rooms" by simp
    from room_constraints_ok[OF b r d c refl this, of "k + 1"]
    show "\<exists>y. (case x of (k, room) \<Rightarrow> room_constraint ?g room (k + 1)) = Inr y"
      by (auto simp: x)
  qed
  then obtain rcs where rcs:
    "mapE (\<lambda>(k, room). room_constraint ?g room (k + 1)) (enumerate_list rooms) = Inr rcs" by blast
  from ne have mx: "py_max (map length rooms) = Inr ?R" by (intro py_max_ok) simp
  from space_constraint_ok[OF dims, of ?R] obtain T where
    T: "n_dist_tuples ?R = Inr T"
    and sp: "space_constraint ?g ?R M N =
               Inr (map (space_con ?g T) (row_pairs ?R M N @ col_pairs ?R M N))"
    by blast
  have "ripple_effect_csp_model b rooms =
      Inr (\<lparr>csp_name = ''Ripple_Effect'', vars = concat ?g, rooms_of = rooms,
            cons = rcs @ map (space_con ?g T) (row_pairs ?R M N @ col_pairs ?R M N)\<rparr>, ?g)"
    by (simp only: ripple_unfold[OF b] mv rcs mx sp sum.case csp_assembled)
  with mv dims rcs T show ?thesis by blast
qed


lemma dist_sym: "dist a b = dist b a"
  by (simp add: dist_def)

lemma grid_nth_mem: "grid_dims g N M \<Longrightarrow> p < N \<Longrightarrow> q < M \<Longrightarrow> g ! p ! q \<in> set (concat g)"
proof -
  assume d: "grid_dims g N M" and p: "p < N" and q: "q < M"
  then have "g ! p \<in> set g" by (simp add: grid_dims_def)
  moreover from d p q have "g ! p ! q \<in> set (g ! p)" by (simp add: grid_dims_nth)
  ultimately show ?thesis by auto
qed

lemma py_index_mem: "py_index xs i = Inr x \<Longrightarrow> x \<in> set xs"
  by (auto simp: py_index_def split: option.splits dest: py_pos_Some)

lemma grid_get_mem: "grid_get g c = Inr v \<Longrightarrow> v \<in> set (concat g)"
  by (cases c) (auto simp: grid_get_def split: sum.splits dest!: py_index_mem)

lemma room_constraint_scope:
  assumes "room_constraint g room k = Inr con"
  shows "set (scope con) \<subseteq> set (concat g)"
proof -
  from assms obtain sc where sc: "mapE (grid_get g) room = Inr sc" and s: "scope con = sc"
    by (auto simp: room_constraint_def Constraint_def add_satisfying_tuples_def
             split: sum.splits prod.splits)
  show ?thesis
  proof
    fix v assume "v \<in> set (scope con)"
    with s have "v \<in> set sc" by simp
    from mapE_set[OF sc this] show "v \<in> set (concat g)" by (auto dest: grid_get_mem)
  qed
qed

lemma foldE_preserves:
  assumes "\<And>x s s'. P s \<Longrightarrow> f x s = Inr s' \<Longrightarrow> P s'" and "P s" and "foldE f xs s = Inr s'"
  shows "P s'"
  using assms(2,3)
proof (induction xs arbitrary: s)
  case Nil
  then show ?case by simp
next
  case (Cons x xs)
  from Cons.prems(2) obtain s1 where s1: "f x s = Inr s1" "foldE f xs s1 = Inr s'"
    by (auto split: sum.splits)
  from assms(1)[OF Cons.prems(1) s1(1)] have "P s1" .
  then show ?case using s1(2) by (rule Cons.IH)
qed

lemma dist_step_scopes:
  assumes "scopes_in g cs" and "dist_step g tabs c1 c2 a b n cs = Inr cs'"
  shows "scopes_in g cs'"
proof (cases "\<bar>int a - int b\<bar> = int n + 1")
  case False
  with assms show ?thesis by (simp add: dist_step_def)
next
  case True
  with assms(2) obtain v1 v2 where v: "grid_at g (fst c1) (snd c1) = Inr v1"
    "grid_at g (fst c2) (snd c2) = Inr v2"
    and cs': "cs' = cs @ [add_satisfying_tuples (make_constraint v1 v2) (tabs ! n)]"
    by (auto simp: dist_step_def split: sum.splits if_splits)
  from v have "v1 \<in> set (concat g)" "v2 \<in> set (concat g)"
    by (auto simp: grid_at_def dest: grid_get_mem)
  then show ?thesis using assms(1)
    by (simp add: cs' scopes_in_def add_satisfying_tuples_def make_constraint_def Constraint_def)
qed

lemma axis_loop_scopes:
  assumes "scopes_in g cs"
    and "foldE (\<lambda>(a, b). foldE (dist_step g tabs (k1 a) (k2 b) a b) ns) ps cs = Inr cs'"
  shows "scopes_in g cs'"
proof (rule foldE_preserves[where P = "scopes_in g", OF _ assms(1) assms(2)])
  fix x s s' assume s: "scopes_in g s"
    and f: "(case x of (a, b) \<Rightarrow> foldE (dist_step g tabs (k1 a) (k2 b) a b) ns) s = Inr s'"
  obtain a b where x: "x = (a, b)" by (cases x)
  from f x have "foldE (dist_step g tabs (k1 a) (k2 b) a b) ns s = Inr s'" by simp
  then show "scopes_in g s'"
    by (rule foldE_preserves[where P = "scopes_in g", OF _ s, rotated]) (rule dist_step_scopes)
qed

lemma space_constraint_scopes:
  assumes "space_constraint g R M N = Inr cs"
  shows "scopes_in g cs"
proof -
  from assms obtain T rows where
    rows: "row_loop g T R M N [] = Inr rows" and cols: "col_loop g T R M N rows = Inr cs"
    by (auto simp: space_constraint_def split: sum.splits)
  have "scopes_in g []" by (simp add: scopes_in_def)
  then have "scopes_in g rows"
    using rows unfolding row_loop_def
    by (rule foldE_preserves[where P = "scopes_in g", rotated])
       (rule axis_loop_scopes[where ?k1.0 = "Pair i" and ?k2.0 = "Pair i" for i])
  then show ?thesis
    using cols unfolding col_loop_def
    by (rule foldE_preserves[where P = "scopes_in g", rotated])
       (rule axis_loop_scopes[where ?k1.0 = "\<lambda>a. (a, i)" and ?k2.0 = "\<lambda>b. (b, i)" for i])
qed

lemma ripple_Inr:
  assumes "ripple_effect_csp_model b rooms = Inr (csp, g)"
  shows "\<exists>room_cons R space_cons.
           make_variable b rooms ((length (hd b) + 1) div 2) ((length b + 1) div 2) = Inr g \<and>
           mapE (\<lambda>(k, room). room_constraint g room (k + 1)) (enumerate_list rooms) = Inr room_cons \<and>
           space_constraint g R ((length (hd b) + 1) div 2) ((length b + 1) div 2) = Inr space_cons \<and>
           csp = \<lparr>csp_name = ''Ripple_Effect'', vars = concat g, rooms_of = rooms,
                  cons = room_cons @ space_cons\<rparr>"
proof -
  from assms obtain row0 rest where b: "b = row0 # rest"
    by (cases b) (auto simp: ripple_effect_csp_model_def py_index_def py_pos_def)
  then have p: "py_index b 0 = Inr (hd b)" by (simp add: py_index_def py_pos_def)
  from assms show ?thesis
    unfolding ripple_effect_csp_model_def p sum.case Let_def csp_assembled
    by (auto split: sum.splits)
qed

text \<open>
  C10, as the code behaves. With an empty room list every cell of the board is in no
  room, and the construction does not return: \<open>max\<close> of the empty list of room sizes
  raises \<open>ValueError\<close>.
\<close>

theorem no_rooms_raises:
  "ripple_effect_csp_model [[PInt 0]] [] = Inl ValueError"
  by code_simp

text \<open>
  C10, amended. On a well-formed board whose rooms are at least one, lie inside the
  grid, share no cell and hold consistent clues, a cell \<open>(p, q)\<close> of the grid that is
  in no room does not stop the construction: the model is returned, the cell's variable
  has an empty domain and no assignment, it is registered in the model, and for every
  other cell of its row or column within the largest room size \<open>R\<close> the model holds a
  spatial constraint with the two variables as scope, in each of the two orders.
\<close>

theorem uncovered_cell:
  assumes "board_ok board N M" and "rooms_in_grid N M rooms" and "distinct (concat rooms)"
    and "list_all (clues_ok board) rooms" and "rooms \<noteq> []"
    and "p < N" and "q < M" and "(int p, int q) \<notin> set (concat rooms)"
  shows "\<exists>model var_array.
           ripple_effect_csp_model board rooms = Inr (model, var_array) \<and>
           domain (var_array ! p ! q) = [] \<and> assignedValue (var_array ! p ! q) = None \<and>
           var_array ! p ! q \<in> set (vars model) \<and>
           (\<forall>r2 c2. r2 < N \<and> c2 < M \<and>
              ((r2 = p \<and> 1 \<le> dist q c2 \<and> dist q c2 \<le> Max (set (map length rooms))) \<or>
               (c2 = q \<and> 1 \<le> dist p r2 \<and> dist p r2 \<le> Max (set (map length rooms)))) \<longrightarrow>
              (\<exists>k\<in>set (cons model). scope k = [var_array ! p ! q, var_array ! r2 ! c2]) \<and>
              (\<exists>k\<in>set (cons model). scope k = [var_array ! r2 ! c2, var_array ! p ! q]))"
proof -
  let ?R = "Max (set (map length rooms))"
  from ripple_ok[OF assms(1-5)] obtain g room_cons T where
    mv: "make_variable board rooms M N = Inr g" and dims: "grid_dims g N M"
    and run: "ripple_effect_csp_model board rooms =
             Inr (\<lparr>csp_name = ''Ripple_Effect'', vars = concat g, rooms_of = rooms,
                   cons = room_cons @
                     map (space_con g T) (row_pairs ?R M N @ col_pairs ?R M N)\<rparr>, g)"
    by blast
  let ?model = "\<lparr>csp_name = ''Ripple_Effect'', vars = concat g, rooms_of = rooms,
                   cons = room_cons @
                     map (space_con g T) (row_pairs ?R M N @ col_pairs ?R M N)\<rparr>"
  from make_variable_uncovered[OF assms(1,2,6,7,8)] mv
  have v: "g ! p ! q = Variable (''V'' @ string_of_nat p @ '','' @ string_of_nat q)" by simp
  then have dom: "domain (g ! p ! q) = []" and asg: "assignedValue (g ! p ! q) = None"
    by (simp_all add: Variable_def)
  have reg: "g ! p ! q \<in> set (vars ?model)"
    using grid_nth_mem[OF dims assms(6,7)] by simp
  have sp: "(\<exists>k\<in>set (cons ?model). scope k = [g ! p ! q, g ! r2 ! c2]) \<and>
            (\<exists>k\<in>set (cons ?model). scope k = [g ! r2 ! c2, g ! p ! q])"
    if h: "r2 < N \<and> c2 < M \<and>
              ((r2 = p \<and> 1 \<le> dist q c2 \<and> dist q c2 \<le> ?R) \<or>
               (c2 = q \<and> 1 \<le> dist p r2 \<and> dist p r2 \<le> ?R))" for r2 c2
  proof -
    from h assms(6,7) have "((p, q), (r2, c2)) \<in> set (row_pairs ?R M N @ col_pairs ?R M N)"
      unfolding space_pairs_set by auto
    then have "space_con g T ((p, q), (r2, c2)) \<in>
        set (map (space_con g T) (row_pairs ?R M N @ col_pairs ?R M N))"
      by (simp only: set_map) (rule imageI)
    then have 1: "space_con g T ((p, q), (r2, c2)) \<in> set (cons ?model)" by simp
    from h assms(6,7) have "((r2, c2), (p, q)) \<in> set (row_pairs ?R M N @ col_pairs ?R M N)"
      unfolding space_pairs_set by (auto simp: dist_sym)
    then have "space_con g T ((r2, c2), (p, q)) \<in>
        set (map (space_con g T) (row_pairs ?R M N @ col_pairs ?R M N))"
      by (simp only: set_map) (rule imageI)
    then have 2: "space_con g T ((r2, c2), (p, q)) \<in> set (cons ?model)" by simp
    from 1 2 show ?thesis using space_con_scope by blast
  qed
  show ?thesis
    by (rule exI[of _ ?model], rule exI[of _ g]) (intro conjI allI impI run dom asg reg; rule sp[THEN conjunct1] sp[THEN conjunct2]; assumption)
qed

theorem uncovered_cell_witness:
  "board_ok [[PInt 0, PStr ''|'', PInt 0]] 1 2 \<and> rooms_in_grid 1 2 [[(0, 0)]] \<and>
   list_all (clues_ok [[PInt 0, PStr ''|'', PInt 0]]) [[(0, 0)]] \<and>
   (\<exists>model var_array.
      ripple_effect_csp_model [[PInt 0, PStr ''|'', PInt 0]] [[(0, 0)]] = Inr (model, var_array) \<and>
      domain (var_array ! 0 ! 1) = [] \<and> assignedValue (var_array ! 0 ! 1) = None \<and>
      var_array ! 0 ! 1 \<in> set (vars model) \<and>
      (\<exists>k\<in>set (cons model). scope k = [var_array ! 0 ! 1, var_array ! 0 ! 0]) \<and>
      (\<exists>k\<in>set (cons model). scope k = [var_array ! 0 ! 0, var_array ! 0 ! 1]))"
proof -
  let ?b = "[[PInt 0, PStr ''|'', PInt 0]]"
  let ?rooms = "[[(0, 0)]] :: room list"
  have b: "board_ok ?b 1 2" by (simp add: board_ok_def)
  have r: "rooms_in_grid 1 2 ?rooms" by (simp add: rooms_in_grid_def in_grid_def)
  have d: "distinct (concat ?rooms)" by simp
  have c: "list_all (clues_ok ?b) ?rooms" by (simp add: clues_ok_def clue_at_def)
  have ne: "?rooms \<noteq> []" by simp
  have u: "(int 0, int 1) \<notin> set (concat ?rooms)" "(0::nat) < 1" "(1::nat) < 2" by simp_all
  have mx: "Max (set (map length ?rooms)) = 1" by simp
  have ds: "dist 1 0 = 1" by (simp add: dist_def)
  from uncovered_cell[OF b r d c ne u(2) u(3) u(1)] obtain model var_array where
    run: "ripple_effect_csp_model ?b ?rooms = Inr (model, var_array)"
    and v: "domain (var_array ! 0 ! 1) = []" "assignedValue (var_array ! 0 ! 1) = None"
      "var_array ! 0 ! 1 \<in> set (vars model)"
    and sp: "\<And>r2 c2. r2 < 1 \<and> c2 < 2 \<and>
              ((r2 = 0 \<and> 1 \<le> dist 1 c2 \<and> dist 1 c2 \<le> 1) \<or>
               (c2 = 1 \<and> 1 \<le> dist 0 r2 \<and> dist 0 r2 \<le> 1)) \<Longrightarrow>
              (\<exists>k\<in>set (cons model). scope k = [var_array ! 0 ! 1, var_array ! r2 ! c2]) \<and>
              (\<exists>k\<in>set (cons model). scope k = [var_array ! r2 ! c2, var_array ! 0 ! 1])"
    unfolding mx by blast
  from sp[of 0 0] ds
  have "(\<exists>k\<in>set (cons model). scope k = [var_array ! 0 ! 1, var_array ! 0 ! 0]) \<and>
        (\<exists>k\<in>set (cons model). scope k = [var_array ! 0 ! 0, var_array ! 0 ! 1])"
    by simp
  with run v b r c show ?thesis by blast
qed

lemma py_pos_wrap: "- int n \<le> i \<Longrightarrow> i < int n \<Longrightarrow> py_pos n i = Some (wrap n i)"
  by (simp add: py_pos_def wrap_def)

lemma py_pos_None: "(py_pos n i = None) = (i < - int n \<or> int n \<le> i)"
  by (auto simp: py_pos_def)

lemma wrap_less: "- int n \<le> i \<Longrightarrow> i < int n \<Longrightarrow> wrap n i < n"
  by (auto simp: wrap_def)

lemma board_pos_reach:
  "0 < n \<Longrightarrow> - int n < i \<Longrightarrow> i < int n \<Longrightarrow> py_pos (2 * n - 1) (i * 2) \<noteq> None"
  by (auto simp: py_pos_def)

lemma board_pos_edge:
  "0 < n \<Longrightarrow> py_pos (2 * n - 1) (i * 2) \<noteq> None \<Longrightarrow> - int n < i \<and> i < int n"
  by (auto simp: py_pos_def split: if_splits)

lemma domain_clue_update:
  "domain (clue_update k val v) = (if val \<noteq> PInt 0 then [val] else domain v @ pool k)"
  by (simp add: clue_update_def add_domain_values_def assign_def)

lemma cell_step_reach:
  assumes b: "board_ok b N M" and g: "grid_dims g N M" and c: "in_reach N M (i, j)"
  shows "\<exists>val. cell_step b k (i, j) g =
           Inr (grid_set g (wrap N i) (wrap M j) (clue_update k val (g ! wrap N i ! wrap M j)))"
proof -
  from c have ij: "- int N < i" "i < int N" "- int M < j" "j < int M"
    by (auto simp: in_reach_def)
  from b have nm: "0 < N" "0 < M" "length b = 2 * N - 1" by (auto simp: board_ok_def)
  from g ij have p: "py_pos (length g) i = Some (wrap N i)"
    by (simp add: grid_dims_def py_pos_wrap)
  from ij have "wrap N i < N" by (simp add: wrap_less)
  with g have "length (g ! wrap N i) = M" by (rule grid_dims_nth)
  with ij have q: "py_pos (length (g ! wrap N i)) j = Some (wrap M j)"
    by (simp add: py_pos_wrap)
  from board_pos_reach[OF nm(1) ij(1,2)] obtain r where r: "py_pos (length b) (i * 2) = Some r"
    by (auto simp: nm(3))
  then have "r < length b" by (rule py_pos_Some)
  with b have "length (b ! r) = 2 * M - 1" by (simp add: board_ok_def list_all_length)
  with board_pos_reach[OF nm(2) ij(3,4)] obtain t where t: "py_pos (length (b ! r)) (j * 2) = Some t"
    by auto
  show ?thesis
    by (rule exI[of _ "b ! r ! t"])
       (simp add: cell_step_def p q r t py_index_def clue_update_def Let_def)
qed

lemma cell_step_reach_dims:
  assumes "board_ok b N M" and "grid_dims g N M" and "in_reach N M c"
  shows "\<exists>g'. cell_step b k c g = Inr g' \<and> grid_dims g' N M"
proof -
  obtain i j where c: "c = (i, j)" by (cases c)
  from cell_step_reach[OF assms(1,2) assms(3)[unfolded c], of k] assms(2)
  show ?thesis by (auto simp: c grid_set_dims)
qed

lemma cell_step_Inr_reach:
  assumes b: "board_ok b N M" and g: "grid_dims g N M" and s: "cell_step b k c g = Inr g'"
  shows "in_reach N M c"
proof -
  obtain i j where c: "c = (i, j)" by (cases c)
  from b have nm: "0 < N" "0 < M" "length b = 2 * N - 1" by (auto simp: board_ok_def)
  from s c obtain p q r t where p: "py_pos (length g) i = Some p"
    and q: "py_pos (length (g ! p)) j = Some q"
    and r: "py_pos (length b) (i * 2) = Some r"
    and t: "py_pos (length (b ! r)) (j * 2) = Some t"
    by (auto simp: cell_step_def py_index_def Let_def split: option.splits sum.splits)
  from r nm have i: "- int N < i \<and> i < int N"
    by (intro board_pos_edge) auto
  from r have "r < length b" by (rule py_pos_Some)
  with b have "length (b ! r) = 2 * M - 1" by (simp add: board_ok_def list_all_length)
  with t nm have "- int M < j \<and> j < int M"
    by (intro board_pos_edge) auto
  with i show ?thesis by (simp add: in_reach_def c)
qed

lemma foldE_total:
  assumes "\<And>x s. x \<in> set xs \<Longrightarrow> P s \<Longrightarrow> \<exists>s'. f x s = Inr s' \<and> P s'" and "P s"
  shows "\<exists>s'. foldE f xs s = Inr s' \<and> P s'"
  using assms
proof (induction xs arbitrary: s)
  case Nil
  then show ?case by simp
next
  case (Cons x xs)
  from Cons.prems(1)[of x s] Cons.prems(2) obtain s1 where s1: "f x s = Inr s1" "P s1" by auto
  have "\<exists>s'. foldE f xs s1 = Inr s' \<and> P s'"
  proof (rule Cons.IH[OF _ s1(2)])
    fix y t assume "y \<in> set xs" "P t"
    then show "\<exists>s'. f y t = Inr s' \<and> P s'" using Cons.prems(1)[of y t] by simp
  qed
  with s1 show ?case by simp
qed

lemma foldE_establish:
  assumes pres: "\<And>x s s'. I s \<Longrightarrow> f x s = Inr s' \<Longrightarrow> I s' \<and> (P s \<longrightarrow> P s')"
    and est: "\<And>s s'. I s \<Longrightarrow> f x0 s = Inr s' \<Longrightarrow> P s'"
    and mem: "x0 \<in> set xs" and I: "I s" and run: "foldE f xs s = Inr s'"
  shows "I s' \<and> P s'"
  using mem I run
proof (induction xs arbitrary: s)
  case Nil
  then show ?case by simp
next
  case (Cons x xs)
  from Cons.prems(3) obtain s1 where s1: "f x s = Inr s1" and rest: "foldE f xs s1 = Inr s'"
    by (auto split: sum.splits)
  from pres[OF Cons.prems(2) s1] have I1: "I s1" by simp
  show ?case
  proof (cases "x = x0")
    case True
    with est[OF Cons.prems(2)] s1 have "P s1" by simp
    with I1 have "I s1 \<and> P s1" by simp
    then show ?thesis
      using rest
    proof (rule foldE_preserves[where P = "\<lambda>s. I s \<and> P s", rotated])
      fix y t t' assume "I t \<and> P t" "f y t = Inr t'"
      then show "I t' \<and> P t'" using pres[of t y t'] by simp
    qed
  next
    case False
    with Cons.prems(1) have "x0 \<in> set xs" by simp
    from Cons.IH[OF this I1 rest] show ?thesis .
  qed
qed

lemma cell_step_domain:
  assumes "cell_step b k c g = Inr g'" and "domain (g ! p ! q) \<noteq> []"
  shows "domain (g' ! p ! q) \<noteq> []"
proof -
  obtain i j where c: "c = (i, j)" by (cases c)
  from assms(1) c obtain p' q' val where p': "py_pos (length g) i = Some p'"
    and q': "py_pos (length (g ! p')) j = Some q'"
    and g': "g' = grid_set g p' q' (clue_update k val (g ! p' ! q'))"
    by (auto simp: cell_step_def py_index_def Let_def clue_update_def split: option.splits sum.splits)
  from p' q' have "p' < length g" "q' < length (g ! p')" by (auto dest: py_pos_Some)
  then have "g' ! p ! q = (if p = p' \<and> q = q' then clue_update k val (g ! p' ! q') else g ! p ! q)"
    unfolding g' by (rule grid_set_nth)
  with assms(2) show ?thesis by (auto simp: domain_clue_update)
qed

lemma cell_step_touches:
  assumes b: "board_ok b N M" and g: "grid_dims g N M" and s: "cell_step b k (i, j) g = Inr g'"
    and k: "0 < k"
  shows "domain (g' ! wrap N i ! wrap M j) \<noteq> []"
proof -
  from cell_step_Inr_reach[OF b g s] have r: "in_reach N M (i, j)" .
  then have ij: "- int N < i" "i < int N" "- int M < j" "j < int M" by (auto simp: in_reach_def)
  from cell_step_reach[OF b g r, of k] s obtain val where
    g': "g' = grid_set g (wrap N i) (wrap M j) (clue_update k val (g ! wrap N i ! wrap M j))"
    by auto
  from ij g have "wrap N i < length g" by (simp add: grid_dims_def wrap_less)
  moreover from ij g have "wrap M j < length (g ! wrap N i)"
    by (simp add: grid_dims_nth wrap_less)
  ultimately have "g' ! wrap N i ! wrap M j = clue_update k val (g ! wrap N i ! wrap M j)"
    unfolding g' by (simp add: grid_set_nth)
  then show ?thesis using k by (simp add: domain_clue_update pool_def)
qed

lemma cell_step_dims:
  assumes "board_ok b N M" and "grid_dims g N M" and "cell_step b k c g = Inr g'"
  shows "grid_dims g' N M"
  using cell_step_addressable[OF assms(3,2)] by simp

lemma room_fold_dims:
  assumes "board_ok b N M" and "grid_dims g N M" and "foldE (cell_step b k) cells g = Inr g'"
  shows "grid_dims g' N M"
  using assms(2,3)
  by (rule foldE_preserves[where P = "\<lambda>g. grid_dims g N M", rotated])
     (rule cell_step_dims[OF assms(1)])

lemma room_fold_domain:
  assumes "board_ok b N M" and "grid_dims g N M \<and> domain (g ! p ! q) \<noteq> []"
    and "foldE (cell_step b k) cells g = Inr g'"
  shows "grid_dims g' N M \<and> domain (g' ! p ! q) \<noteq> []"
  using assms(2,3)
proof (rule foldE_preserves[where P = "\<lambda>g. grid_dims g N M \<and> domain (g ! p ! q) \<noteq> []", rotated])
  fix x s s' assume "grid_dims s N M \<and> domain (s ! p ! q) \<noteq> []" "cell_step b k x s = Inr s'"
  then show "grid_dims s' N M \<and> domain (s' ! p ! q) \<noteq> []"
    using cell_step_dims[OF assms(1), of s k x s'] cell_step_domain[of b k x s s' p q] by simp
qed

lemma room_fold_touches:
  assumes b: "board_ok b N M" and g: "grid_dims g N M"
    and run: "foldE (cell_step b (length room)) room g = Inr g'" and c: "(i, j) \<in> set room"
  shows "grid_dims g' N M \<and> domain (g' ! wrap N i ! wrap M j) \<noteq> []"
proof (rule foldE_establish[where I = "\<lambda>g. grid_dims g N M" and ?x0.0 = "(i, j)", OF _ _ c g run])
  fix x s s' assume "grid_dims s N M" "cell_step b (length room) x s = Inr s'"
  then show "grid_dims s' N M \<and>
      (domain (s ! wrap N i ! wrap M j) \<noteq> [] \<longrightarrow> domain (s' ! wrap N i ! wrap M j) \<noteq> [])"
    using cell_step_dims[OF b, of s "length room" x s']
      cell_step_domain[of b "length room" x s s' "wrap N i" "wrap M j"] by simp
next
  fix s s' assume "grid_dims s N M" "cell_step b (length room) (i, j) s = Inr s'"
  moreover from c have "0 < length room" by (cases room) auto
  ultimately show "domain (s' ! wrap N i ! wrap M j) \<noteq> []"
    using cell_step_touches[OF b] by blast
qed

lemma make_variable_touches:
  assumes b: "board_ok b N M" and run: "make_variable b rooms M N = Inr g"
    and r: "room \<in> set rooms" and c: "(i, j) \<in> set room"
  shows "domain (g ! wrap N i ! wrap M j) \<noteq> []"
proof -
  have "grid_dims g N M \<and> domain (g ! wrap N i ! wrap M j) \<noteq> []"
  proof (rule foldE_establish[where I = "\<lambda>g. grid_dims g N M" and ?x0.0 = room
        and f = "\<lambda>room. foldE (cell_step b (length room)) room", OF _ _ r new_var_array_dims])
    show "foldE (\<lambda>room. foldE (cell_step b (length room)) room) rooms (new_var_array M N) = Inr g"
      using run by (simp add: make_variable_def)
  next
    fix x s s' assume s: "grid_dims s N M" and f: "foldE (cell_step b (length x)) x s = Inr s'"
    show "grid_dims s' N M \<and>
      (domain (s ! wrap N i ! wrap M j) \<noteq> [] \<longrightarrow> domain (s' ! wrap N i ! wrap M j) \<noteq> [])"
      using room_fold_dims[OF b s f] room_fold_domain[OF b _ f, of "wrap N i" "wrap M j"] s
      by blast
  next
    fix s s' assume "grid_dims s N M" "foldE (cell_step b (length room)) room s = Inr s'"
    then show "domain (s' ! wrap N i ! wrap M j) \<noteq> []"
      using room_fold_touches[OF b _ _ c] by blast
  qed
  then show ?thesis by simp
qed

lemma make_variable_reach:
  assumes b: "board_ok b N M" and run: "make_variable b rooms M N = Inr g"
    and r: "room \<in> set rooms" and c: "c \<in> set room"
  shows "in_reach N M c"
proof -
  have "grid_dims g N M \<and> (\<forall>room\<in>set rooms. \<forall>c\<in>set room. in_reach N M c)"
  proof (rule foldE_invariant[where P = "\<lambda>g. grid_dims g N M"
        and f = "\<lambda>room. foldE (cell_step b (length room)) room" and s = "new_var_array M N"])
    show "grid_dims (new_var_array M N) N M" by (rule new_var_array_dims)
    show "foldE (\<lambda>room. foldE (cell_step b (length room)) room) rooms (new_var_array M N) = Inr g"
      using run by (simp add: make_variable_def)
  next
    fix room s s'
    assume s: "grid_dims s N M" and f: "foldE (cell_step b (length room)) room s = Inr s'"
    show "grid_dims s' N M \<and> (\<forall>c\<in>set room. in_reach N M c)"
    proof (rule foldE_invariant[where P = "\<lambda>g. grid_dims g N M", OF _ s f])
      fix c t t' assume "grid_dims t N M" "cell_step b (length room) c t = Inr t'"
      then show "grid_dims t' N M \<and> in_reach N M c"
        using cell_step_dims[OF b] cell_step_Inr_reach[OF b] by blast
    qed
  qed
  with r c show ?thesis by blast
qed

lemma make_variable_total:
  assumes b: "board_ok b N M" and r: "\<forall>room\<in>set rooms. \<forall>c\<in>set room. in_reach N M c"
  shows "\<exists>g. make_variable b rooms M N = Inr g \<and> grid_dims g N M"
  unfolding make_variable_def
proof (rule foldE_total[where P = "\<lambda>g. grid_dims g N M"])
  show "grid_dims (new_var_array M N) N M" by (rule new_var_array_dims)
next
  fix room s assume room: "room \<in> set rooms" and s: "grid_dims s N M"
  show "\<exists>s'. foldE (cell_step b (length room)) room s = Inr s' \<and> grid_dims s' N M"
  proof (rule foldE_total[where P = "\<lambda>g. grid_dims g N M", OF _ s])
    fix c t assume "c \<in> set room" "grid_dims t N M"
    with r room show "\<exists>s'. cell_step b (length room) c t = Inr s' \<and> grid_dims s' N M"
      using cell_step_reach_dims[OF b] by blast
  qed
qed

text \<open>
  C7, amended. On a well-formed board for \<open>N\<close> by \<open>M\<close> cells: when a room holds a
  coordinate \<open>(i, j)\<close> with \<open>i \<ge> N\<close>, \<open>i \<le> -N\<close>, \<open>j \<ge> M\<close> or \<open>j \<le> -M\<close>, \<open>make_variable\<close>
  raises \<open>IndexError\<close> and so does \<open>ripple_effect_csp_model\<close>, and no grid or model is
  returned. When every coordinate of every room has \<open>-N < i < N\<close> and \<open>-M < j < M\<close>,
  \<open>make_variable\<close> raises nothing and returns a grid of \<open>N\<close> by \<open>M\<close> variables: a
  negative coordinate in that range is not rejected, it is read as counted from the end,
  and the variable at that position is the one changed (its domain is no longer empty).
\<close>

theorem make_variable_index_range:
  assumes "board_ok board N M"
  shows "((\<exists>room\<in>set rooms. \<exists>c\<in>set room. \<not> in_reach N M c) \<longrightarrow>
            make_variable board rooms M N = Inl IndexError \<and>
            ripple_effect_csp_model board rooms = Inl IndexError) \<and>
         ((\<forall>room\<in>set rooms. \<forall>c\<in>set room. in_reach N M c) \<longrightarrow>
            (\<exists>var_array. make_variable board rooms M N = Inr var_array \<and>
               grid_dims var_array N M \<and>
               (\<forall>room\<in>set rooms. \<forall>c\<in>set room.
                  domain (var_array ! wrap N (fst c) ! wrap M (snd c)) \<noteq> [])))"
proof (intro conjI impI)
  assume out: "\<exists>room\<in>set rooms. \<exists>c\<in>set room. \<not> in_reach N M c"
  show mv: "make_variable board rooms M N = Inl IndexError"
  proof (cases "make_variable board rooms M N")
    case (Inl e)
    then show ?thesis using make_variable_error[of board rooms M N e] by simp
  next
    case (Inr g)
    with out make_variable_reach[OF assms Inr] show ?thesis by blast
  qed
  show "ripple_effect_csp_model board rooms = Inl IndexError"
    by (simp only: ripple_unfold[OF assms] mv sum.case)
next
  assume r: "\<forall>room\<in>set rooms. \<forall>c\<in>set room. in_reach N M c"
  from make_variable_total[OF assms r] obtain g where
    g: "make_variable board rooms M N = Inr g" "grid_dims g N M" by blast
  have "domain (g ! wrap N (fst c) ! wrap M (snd c)) \<noteq> []"
    if "room \<in> set rooms" "c \<in> set room" for room c
    using make_variable_touches[OF assms g(1) that(1), of "fst c" "snd c"] that(2) by simp
  with g show "\<exists>var_array. make_variable board rooms M N = Inr var_array \<and>
               grid_dims var_array N M \<and>
               (\<forall>room\<in>set rooms. \<forall>c\<in>set room.
                  domain (var_array ! wrap N (fst c) ! wrap M (snd c)) \<noteq> [])"
    by blast
qed

theorem make_variable_index_range_witness:
  "board_ok [[PInt 0], [PStr ''-''], [PInt 0]] 2 1 \<and>
   make_variable [[PInt 0], [PStr ''-''], [PInt 0]] [[(0, 0)], [(- 2, 0)]] 1 2 = Inl IndexError \<and>
   ripple_effect_csp_model [[PInt 0], [PStr ''-''], [PInt 0]] [[(0, 0)], [(- 2, 0)]] =
     Inl IndexError \<and>
   (\<exists>var_array.
      make_variable [[PInt 0], [PStr ''-''], [PInt 0]] [[(0, 0)], [(- 1, 0)]] 1 2 = Inr var_array \<and>
      grid_dims var_array 2 1 \<and> domain (var_array ! 1 ! 0) \<noteq> [])"
proof -
  let ?b = "[[PInt 0], [PStr ''-''], [PInt 0]]"
  have b: "board_ok ?b 2 1" by (simp add: board_ok_def)
  have out: "\<exists>room\<in>set [[(0, 0)], [(- 2, 0)]]. \<exists>c\<in>set room. \<not> in_reach 2 1 c"
    by (simp add: in_reach_def)
  have inr: "\<forall>room\<in>set [[(0, 0)], [(- 1, 0)]]. \<forall>c\<in>set room. in_reach 2 1 c"
    by (simp add: in_reach_def)
  from make_variable_index_range[OF b, of "[[(0, 0)], [(- 2, 0)]]"] out
  have 1: "make_variable ?b [[(0, 0)], [(- 2, 0)]] 1 2 = Inl IndexError \<and>
           ripple_effect_csp_model ?b [[(0, 0)], [(- 2, 0)]] = Inl IndexError"
    by blast
  from make_variable_index_range[OF b, of "[[(0, 0)], [(- 1, 0)]]"] inr
  obtain g where g: "make_variable ?b [[(0, 0)], [(- 1, 0)]] 1 2 = Inr g" "grid_dims g 2 1"
    "\<forall>room\<in>set [[(0, 0)], [(- 1, 0)]]. \<forall>c\<in>set room.
        domain (g ! wrap 2 (fst c) ! wrap 1 (snd c)) \<noteq> []"
    by blast
  from g(3) have "domain (g ! 1 ! 0) \<noteq> []" by (simp add: wrap_def)
  with b 1 g(1,2) show ?thesis by blast
qed

lemma map_result_simps [simp]:
  "map_result f (Inl e) = Inl e" "map_result f (Inr x) = Inr (f x)"
  by (simp_all add: map_result_def)

lemma py_index_map: "py_index (map f xs) i = map_result f (py_index xs i)"
  by (auto simp: py_index_def split: option.splits dest: py_pos_Some)

lemma mapS_alloc:
  "mapS (\<lambda>x. new_Variable (f x)) xs st =
     ([length st..<length st + length xs], st @ map (\<lambda>x. Variable (f x)) xs)"
proof (induction xs arbitrary: st)
  case Nil
  show ?case by simp
next
  case (Cons x xs)
  have head: "new_Variable (f x) st = (length st, st @ [Variable (f x)])"
    by (simp add: new_Variable_def)
  have "[length st..<length st + length (x # xs)] =
          length st # [length (st @ [Variable (f x)])..<length (st @ [Variable (f x)]) + length xs]"
    by (simp add: upt_rec[of "length st"] del: upt_Suc)
  then show ?case
    by (simp only: mapS.simps head prod.case Cons) simp
qed

lemma upt_split: "a \<le> b \<Longrightarrow> b \<le> c \<Longrightarrow> [a..<b] @ [b..<c] = [a..<c]"
  using upt_add_eq_append[of a b "c - b"] by simp

lemma view_append: "\<forall>a\<in>set (concat rg). a < length st \<Longrightarrow> view (st @ ys) rg = view st rg"
  by (auto simp: view_def nth_append)

lemma mapS_alloc_grid:
  "mapS (\<lambda>i. mapS (\<lambda>j. new_Variable (f i j)) js) is st = (rg, st') \<Longrightarrow>
     st' = st @ concat (map (\<lambda>i. map (\<lambda>j. Variable (f i j)) js) is) \<and>
     concat rg = [length st..<length st'] \<and>
     map length rg = map (\<lambda>i. length js) is \<and>
     view st' rg = map (\<lambda>i. map (\<lambda>j. Variable (f i j)) js) is"
proof (induction "is" arbitrary: st rg st')
  case Nil
  then show ?case by (simp add: view_def)
next
  case (Cons i "is")
  let ?st1 = "st @ map (\<lambda>j. Variable (f i j)) js"
  let ?row = "[length st..<length st + length js]"
  obtain rg' st2 where rest: "mapS (\<lambda>i. mapS (\<lambda>j. new_Variable (f i j)) js) is ?st1 = (rg', st2)"
    by (cases "mapS (\<lambda>i. mapS (\<lambda>j. new_Variable (f i j)) js) is ?st1")
  have step: "mapS (\<lambda>j. new_Variable (f i j)) js st = (?row, ?st1)" by (rule mapS_alloc)
  from Cons.prems have "(?row # rg', st2) = (rg, st')"
    by (simp only: mapS.simps step prod.case rest)
  then have rg: "rg = ?row # rg'" and st': "st' = st2" by simp_all
  note ih0 = Cons.IH[OF rest]
  have ih: "st2 = ?st1 @ concat (map (\<lambda>i. map (\<lambda>j. Variable (f i j)) js) is)"
    "concat rg' = [length ?st1..<length st2]"
    "map length rg' = map (\<lambda>i. length js) is"
    "view st2 rg' = map (\<lambda>i. map (\<lambda>j. Variable (f i j)) js) is"
    using ih0 by blast+
  have l: "length st + length js \<le> length st2" using ih(1) by simp
  have c: "concat rg = [length st..<length st']"
    using ih(2) l by (simp add: rg st' upt_split)
  have "map (nth st2) ?row = map (\<lambda>j. Variable (f i j)) js"
  proof (rule nth_equalityI)
    show "length (map (nth st2) ?row) = length (map (\<lambda>j. Variable (f i j)) js)" by simp
    fix k assume "k < length (map (nth st2) ?row)"
    then have k: "k < length js" by simp
    then show "map (nth st2) ?row ! k = map (\<lambda>j. Variable (f i j)) js ! k"
      by (simp add: ih(1) nth_append)
  qed
  then have v: "view st' rg = map (\<lambda>i. map (\<lambda>j. Variable (f i j)) js) (i # is)"
    using ih(4) by (simp add: view_def rg st')
  from ih(1,3) c v show ?case by (simp add: rg st')
qed

lemma new_var_array_st_props:
  assumes "new_var_array_st M N st = (rg, st')"
  shows "view st' rg = new_var_array M N" and "concat rg = [length st..<length st']"
    and "length rg = N" and "list_all (\<lambda>row. length row = M) rg"
proof -
  note p = mapS_alloc_grid[OF assms[unfolded new_var_array_st_def]]
  from p have "view st' rg =
      map (\<lambda>i. map (\<lambda>j. Variable (''V'' @ string_of_nat i @ '','' @ string_of_nat j)) [0..<M]) [0..<N]"
    by blast
  then show "view st' rg = new_var_array M N" by (simp only: new_var_array_def)
  from p show "concat rg = [length st..<length st']" by blast
  from p have "map length rg = map (\<lambda>i. length [0..<M]) [0..<N]" by blast
  then have m: "map length rg = map (\<lambda>i. M) [0..<N]" by simp
  then have "length (map length rg) = length (map (\<lambda>i. M) [0..<N])" by simp
  then show "length rg = N" by simp
  show "list_all (\<lambda>row. length row = M) rg"
    unfolding list_all_iff
  proof
    fix row assume "row \<in> set rg"
    then have "length row \<in> set (map length rg)" by simp
    with m show "length row = M" by auto
  qed
qed


lemma distinct_concat_nth_inj:
  "distinct (concat xss) \<Longrightarrow> p < length xss \<Longrightarrow> q < length (xss ! p) \<Longrightarrow>
   p' < length xss \<Longrightarrow> q' < length (xss ! p') \<Longrightarrow> xss ! p ! q = xss ! p' ! q' \<Longrightarrow>
   p = p' \<and> q = q'"
proof (induction xss arbitrary: p p')
  case Nil
  then show ?case by simp
next
  case (Cons xs xss)
  from Cons.prems(1) have d: "distinct xs" "distinct (concat xss)"
    "set xs \<inter> set (concat xss) = {}" by auto
  have in_rest: "xss ! n ! m \<in> set (concat xss)" if "n < length xss" "m < length (xss ! n)" for n m
    using that by (auto intro!: bexI[of _ "xss ! n"])
  show ?case
  proof (cases p)
    case 0
    show ?thesis
    proof (cases p')
      case 0
      with \<open>p = 0\<close> Cons.prems d(1) show ?thesis by (simp add: nth_eq_iff_index_eq)
    next
      case (Suc n')
      with \<open>p = 0\<close> Cons.prems have h: "q < length xs" "n' < length xss" "q' < length (xss ! n')"
        "xs ! q = xss ! n' ! q'" by simp_all
      from h(1) have "xs ! q \<in> set xs" by simp
      moreover from in_rest[OF h(2,3)] h(4) have "xs ! q \<in> set (concat xss)" by simp
      ultimately show ?thesis using d(3) by blast
    qed
  next
    case (Suc n)
    show ?thesis
    proof (cases p')
      case 0
      with \<open>p = Suc n\<close> Cons.prems have h: "q' < length xs" "n < length xss" "q < length (xss ! n)"
        "xss ! n ! q = xs ! q'" by simp_all
      from h(1) have "xs ! q' \<in> set xs" by simp
      moreover from in_rest[OF h(2,3)] h(4) have "xs ! q' \<in> set (concat xss)" by simp
      ultimately show ?thesis using d(3) by blast
    next
      case (Suc n')
      with \<open>p = Suc n\<close> Cons.prems Cons.IH[OF d(2), of n n'] show ?thesis by simp
    qed
  qed
qed

lemma view_length [simp]: "length (view st rg) = length rg"
  by (simp add: view_def)

lemma view_row: "p < length rg \<Longrightarrow> view st rg ! p = map (nth st) (rg ! p)"
  by (simp add: view_def)

lemma view_nth: "p < length rg \<Longrightarrow> q < length (rg ! p) \<Longrightarrow> view st rg ! p ! q = st ! (rg ! p ! q)"
  by (simp add: view_def)

lemma grid_eqI:
  assumes "length g = length h" and "\<And>p. p < length g \<Longrightarrow> length (g ! p) = length (h ! p)"
    and "\<And>p q. p < length g \<Longrightarrow> q < length (g ! p) \<Longrightarrow> g ! p ! q = h ! p ! q"
  shows "g = (h :: 'a list list)"
proof (rule nth_equalityI[OF assms(1)])
  fix p assume p: "p < length g"
  show "g ! p = h ! p"
    by (rule nth_equalityI[OF assms(2)[OF p]]) (rule assms(3)[OF p])
qed

lemma refs_ok_nth:
  "refs_ok rg st \<Longrightarrow> p < length rg \<Longrightarrow> q < length (rg ! p) \<Longrightarrow> rg ! p ! q < length st"
proof -
  assume r: "refs_ok rg st" and p: "p < length rg" and q: "q < length (rg ! p)"
  then have "rg ! p ! q \<in> set (concat rg)" by (auto intro!: bexI[of _ "rg ! p"])
  with r show ?thesis unfolding refs_ok_def list_all_iff by blast
qed

lemma view_update:
  assumes r: "refs_ok rg st" and p: "p < length rg" and q: "q < length (rg ! p)"
  shows "view (st[rg ! p ! q := v]) rg = grid_set (view st rg) p q v"
proof (rule grid_eqI)
  show "length (view (st[rg ! p ! q := v]) rg) = length (grid_set (view st rg) p q v)"
    by (simp add: grid_set_def)
next
  fix p' assume "p' < length (view (st[rg ! p ! q := v]) rg)"
  then have p': "p' < length rg" by simp
  then show "length (view (st[rg ! p ! q := v]) rg ! p') = length (grid_set (view st rg) p q v ! p')"
    by (cases "p' = p") (simp_all add: grid_set_def view_row)
next
  fix p' q' assume "p' < length (view (st[rg ! p ! q := v]) rg)"
    and q'0: "q' < length (view (st[rg ! p ! q := v]) rg ! p')"
  then have p': "p' < length rg" by simp
  with q'0 have q': "q' < length (rg ! p')" by (simp add: view_row)
  have a: "rg ! p ! q < length st" using r p q by (rule refs_ok_nth)
  have inj: "(rg ! p' ! q' = rg ! p ! q) = (p' = p \<and> q' = q)"
    using distinct_concat_nth_inj[of rg p' q' p q] r p q p' q' by (auto simp: refs_ok_def)
  have "view (st[rg ! p ! q := v]) rg ! p' ! q' = st[rg ! p ! q := v] ! (rg ! p' ! q')"
    using p' q' by (rule view_nth)
  also have "\<dots> = (if p' = p \<and> q' = q then v else st ! (rg ! p' ! q'))"
    using a inj by (auto simp: nth_list_update)
  also have "\<dots> = (if p' = p \<and> q' = q then v else view st rg ! p' ! q')"
    using p' q' by (simp add: view_nth)
  also have "\<dots> = grid_set (view st rg) p q v ! p' ! q'"
    using p q by (subst grid_set_nth) (simp_all add: view_row)
  finally show "view (st[rg ! p ! q := v]) rg ! p' ! q' = grid_set (view st rg) p q v ! p' ! q'" .
qed

lemma refs_ok_update: "refs_ok rg st \<Longrightarrow> refs_ok rg (st[a := v])"
  by (simp add: refs_ok_def)

lemma cell_step_sim:
  assumes r: "refs_ok rg st"
  shows "map_result (\<lambda>st'. view st' rg) (cell_step_st b k rg c st) = cell_step b k c (view st rg)"
    and "cell_step_st b k rg c st = Inr st' \<Longrightarrow> refs_ok rg st'"
proof -
  obtain i j where c: "c = (i, j)" by (cases c)
  show "map_result (\<lambda>st'. view st' rg) (cell_step_st b k rg c st) = cell_step b k c (view st rg)"
  proof (cases "py_pos (length rg) i")
    case None
    then show ?thesis by (simp add: cell_step_st_def cell_step_def c py_index_def)
  next
    case (Some p)
    then have p: "p < length rg" by (rule py_pos_Some)
    show ?thesis
    proof (cases "py_pos (length (rg ! p)) j")
      case None
      with Some p show ?thesis by (simp add: cell_step_st_def cell_step_def c py_index_def view_row)
    next
      case q: (Some q)
      then have q': "q < length (rg ! p)" by (rule py_pos_Some)
      let ?a = "rg ! p ! q"
      have a: "?a < length st" using r p q' by (rule refs_ok_nth)
      have v: "view st rg ! p ! q = st ! ?a" using p q' by (rule view_nth)
      have u1: "view (obj_add_domain_values ?a (pool k) st) rg =
                  grid_set (view st rg) p q (add_domain_values (st ! ?a) (pool k))"
        unfolding obj_add_domain_values_def by (rule view_update[OF r p q'])
      have u2: "view (obj_set_domain ?a [val] (obj_assign ?a val (obj_add_domain_values ?a (pool k) st))) rg =
                  grid_set (view st rg) p q
                    ((assign (add_domain_values (st ! ?a) (pool k)) val)\<lparr>domain := [val]\<rparr>)" for val
      proof -
        have "obj_set_domain ?a [val] (obj_assign ?a val (obj_add_domain_values ?a (pool k) st)) =
              st[?a := (assign (add_domain_values (st ! ?a) (pool k)) val)\<lparr>domain := [val]\<rparr>]"
          using a by (simp add: obj_set_domain_def obj_assign_def obj_add_domain_values_def)
        then show ?thesis by (simp only: view_update[OF r p q'])
      qed
      show ?thesis
        using Some q p q'
        by (auto simp: cell_step_st_def cell_step_def c py_index_def view_row v u1 u2 Let_def
                 split: option.splits)
    qed
  qed
  show "cell_step_st b k rg c st = Inr st' \<Longrightarrow> refs_ok rg st'"
    using r
    by (auto simp: cell_step_st_def c Let_def obj_set_domain_def obj_assign_def
                   obj_add_domain_values_def refs_ok_update
             split: sum.splits if_splits)
qed

lemma foldE_sim:
  assumes "\<And>x s. x \<in> set xs \<Longrightarrow> I s \<Longrightarrow>
             map_result \<alpha> (f x s) = g x (\<alpha> s) \<and> (\<forall>s'. f x s = Inr s' \<longrightarrow> I s')"
    and "I s"
  shows "map_result \<alpha> (foldE f xs s) = foldE g xs (\<alpha> s) \<and> (\<forall>s'. foldE f xs s = Inr s' \<longrightarrow> I s')"
  using assms
proof (induction xs arbitrary: s)
  case Nil
  then show ?case by simp
next
  case (Cons x xs)
  have xs: "x \<in> set (x # xs)" by simp
  note h = Cons.prems(1)[OF xs Cons.prems(2)]
  have step: "map_result \<alpha> (f x s) = g x (\<alpha> s)" by (rule h[THEN conjunct1])
  have inv: "f x s = Inr s' \<Longrightarrow> I s'" for s' using h[THEN conjunct2] by blast
  show ?case
  proof (cases "f x s")
    case (Inl e)
    with step have "g x (\<alpha> s) = Inl e" by simp
    with Inl show ?thesis by simp
  next
    case (Inr s1)
    with step have g: "g x (\<alpha> s) = Inr (\<alpha> s1)" by simp
    have "map_result \<alpha> (foldE f xs s1) = foldE g xs (\<alpha> s1) \<and>
          (\<forall>s'. foldE f xs s1 = Inr s' \<longrightarrow> I s')"
    proof (rule Cons.IH)
      show "I s1" using inv Inr by simp
      fix y t assume "y \<in> set xs" "I t"
      then show "map_result \<alpha> (f y t) = g y (\<alpha> t) \<and> (\<forall>s'. f y t = Inr s' \<longrightarrow> I s')"
        using Cons.prems(1)[of y t] by simp
    qed
    with Inr g show ?thesis by simp
  qed
qed

lemma make_variable_sim:
  "map_result (\<lambda>(rg, st'). view st' rg) (make_variable_st b rooms M N st) = make_variable b rooms M N"
  and "make_variable_st b rooms M N st = Inr (rg, st') \<Longrightarrow> refs_ok rg st'"
proof -
  obtain rg0 st0 where al: "new_var_array_st M N st = (rg0, st0)"
    by (cases "new_var_array_st M N st")
  note props = new_var_array_st_props[OF al]
  have ok0: "refs_ok rg0 st0"
    using props(2) by (auto simp: refs_ok_def list_all_iff)
  have sim: "map_result (\<lambda>st'. view st' rg0)
               (foldE (\<lambda>room. foldE (cell_step_st b (length room) rg0) room) rooms st0) =
             foldE (\<lambda>room. foldE (cell_step b (length room)) room) rooms (view st0 rg0) \<and>
             (\<forall>s'. foldE (\<lambda>room. foldE (cell_step_st b (length room) rg0) room) rooms st0 = Inr s'
                 \<longrightarrow> refs_ok rg0 s')"
  proof (rule foldE_sim[where I = "refs_ok rg0"])
    show "refs_ok rg0 st0" by (rule ok0)
    fix room s assume s: "refs_ok rg0 s"
    show "map_result (\<lambda>st'. view st' rg0) (foldE (cell_step_st b (length room) rg0) room s) =
            foldE (cell_step b (length room)) room (view s rg0) \<and>
          (\<forall>s'. foldE (cell_step_st b (length room) rg0) room s = Inr s' \<longrightarrow> refs_ok rg0 s')"
    proof (rule foldE_sim[where I = "refs_ok rg0", OF _ s])
      fix c t assume t: "refs_ok rg0 t"
      show "map_result (\<lambda>st'. view st' rg0) (cell_step_st b (length room) rg0 c t) =
              cell_step b (length room) c (view t rg0) \<and>
            (\<forall>s'. cell_step_st b (length room) rg0 c t = Inr s' \<longrightarrow> refs_ok rg0 s')"
        using cell_step_sim[OF t] by blast
    qed
  qed
  show "map_result (\<lambda>(rg, st'). view st' rg) (make_variable_st b rooms M N st) = make_variable b rooms M N"
    using sim[THEN conjunct1]
    by (cases "foldE (\<lambda>room. foldE (cell_step_st b (length room) rg0) room) rooms st0")
       (simp_all add: make_variable_st_def make_variable_def al props(1))
  show "make_variable_st b rooms M N st = Inr (rg, st') \<Longrightarrow> refs_ok rg st'"
    using sim[THEN conjunct2]
    by (auto simp: make_variable_st_def al split: sum.splits)
qed


lemma grid_ref_sim: "map_result (nth st) (grid_ref rg c) = grid_get (view st rg) c"
proof -
  obtain i j where c: "c = (i, j)" by (cases c)
  show ?thesis
    by (cases "py_index rg i")
       (simp_all add: grid_ref_def grid_get_def c view_def py_index_map)
qed

lemma mapE_map_result:
  "(\<And>x. x \<in> set xs \<Longrightarrow> map_result h (f x) = g x) \<Longrightarrow> map_result (map h) (mapE f xs) = mapE g xs"
proof (induction xs)
  case Nil
  show ?case by simp
next
  case (Cons x xs)
  have x: "map_result h (f x) = g x" by (rule Cons.prems) simp
  have ih: "map_result (map h) (mapE f xs) = mapE g xs"
    by (rule Cons.IH) (simp add: Cons.prems)
  show ?case
  proof (cases "f x")
    case (Inl e)
    with x have "g x = Inl e" by simp
    with Inl show ?thesis by simp
  next
    case (Inr y)
    with x have gx: "g x = Inr (h y)" by simp
    show ?thesis
      using ih[symmetric] by (cases "mapE f xs") (simp_all add: Inr gx)
  qed
qed

lemma enumerate_list_map:
  "enumerate_list (map f xs) = map (\<lambda>(i, a). (i, f a)) (enumerate_list xs)"
  by (simp add: enumerate_list_def zip_map2)

lemma remove_assigned_st_eq:
  "remove_assigned_st es found it st =
     map_result (\<lambda>r. (r, st)) (remove_assigned (map (\<lambda>(i, a). (i, st ! a)) es) found it)"
proof (induction es arbitrary: found it)
  case Nil
  show ?case by simp
next
  case (Cons x es)
  obtain i a where x: "x = (i, a)" by (cases x)
  show ?case
  proof (cases "assignedValue (st ! a)")
    case None
    then show ?thesis
      by (simp add: x obj_is_assigned_def is_assigned_def Cons)
  next
    case (Some v)
    then show ?thesis
      by (cases "py_remove v it")
         (simp_all add: x obj_is_assigned_def is_assigned_def obj_get_assigned_value_def Cons)
  qed
qed

lemma room_constraint_st_store:
  "room_constraint_st rg room k st = Inr (c, st') \<Longrightarrow> st' = st"
  by (auto simp: room_constraint_st_def remove_assigned_st_eq new_Constraint_def
                 obj_add_satisfying_tuples_def map_result_def
           split: sum.splits prod.splits)

lemma room_constraint_sim:
  "map_result (\<lambda>(c, st'). view_con st' c) (room_constraint_st rg room k st) =
     room_constraint (view st rg) room k"
proof (cases "mapE (grid_ref rg) room")
  case (Inl e)
  with mapE_map_result[of room "nth st" "grid_ref rg" "grid_get (view st rg)"] grid_ref_sim
  have "mapE (grid_get (view st rg)) room = Inl e" by simp
  with Inl show ?thesis by (simp add: room_constraint_st_def room_constraint_def)
next
  case (Inr sc)
  with mapE_map_result[of room "nth st" "grid_ref rg" "grid_get (view st rg)"] grid_ref_sim
  have sc: "mapE (grid_get (view st rg)) room = Inr (map (nth st) sc)" by simp
  have en: "map (\<lambda>(i, a). (i, st ! a)) (enumerate_list sc) = enumerate_list (map (nth st) sc)"
    by (simp add: enumerate_list_map)
  show ?thesis
    by (cases "remove_assigned (enumerate_list (map (nth st) sc)) [] (pool (length room))")
       (auto simp: room_constraint_st_def room_constraint_def Inr sc remove_assigned_st_eq en
                   new_Constraint_def obj_add_satisfying_tuples_def view_con_def
                   Constraint_def add_satisfying_tuples_def)
qed


lemma grid_at_sim: "grid_at (view st rg) i j = map_result (nth st) (grid_ref rg (int i, int j))"
  by (simp add: grid_at_def grid_ref_sim)

lemma view_con_make:
  "view_con st (fst (obj_add_satisfying_tuples (fst (make_constraint_st v1 v2 st)) ts st)) =
     add_satisfying_tuples (make_constraint (st ! v1) (st ! v2)) ts"
  by (simp add: make_constraint_st_def new_Constraint_def obj_add_satisfying_tuples_def
                view_con_def make_constraint_def Constraint_def add_satisfying_tuples_def)

lemma dist_step_sim:
  "map_result (\<lambda>s. map (view_con st) (fst s)) (dist_step_st rg tabs c1 c2 a b n (cs, st)) =
     dist_step (view st rg) tabs c1 c2 a b n (map (view_con st) cs) \<and>
   (\<forall>s'. dist_step_st rg tabs c1 c2 a b n (cs, st) = Inr s' \<longrightarrow> snd s' = st)"
proof (cases "\<bar>int a - int b\<bar> = int n + 1")
  case False
  then show ?thesis by (simp add: dist_step_st_def dist_step_def)
next
  case True
  show ?thesis
  proof (cases "grid_ref rg (int (fst c1), int (snd c1))")
    case (Inl e)
    with True show ?thesis by (simp add: dist_step_st_def dist_step_def grid_at_sim)
  next
    case v1: (Inr v1)
    show ?thesis
    proof (cases "grid_ref rg (int (fst c2), int (snd c2))")
      case (Inl e)
      with True v1 show ?thesis by (simp add: dist_step_st_def dist_step_def grid_at_sim)
    next
      case v2: (Inr v2)
      show ?thesis
        using True v1 v2
        by (simp add: dist_step_st_def dist_step_def grid_at_sim make_constraint_st_def
                      new_Constraint_def obj_add_satisfying_tuples_def view_con_def
                      make_constraint_def Constraint_def add_satisfying_tuples_def)
    qed
  qed
qed

lemma dist_loop_sim:
  assumes "same_store st s"
  shows "map_result (\<lambda>s. map (view_con st) (fst s)) (foldE (dist_step_st rg tabs c1 c2 a b) ns s) =
           foldE (dist_step (view st rg) tabs c1 c2 a b) ns (map (view_con st) (fst s)) \<and>
         (\<forall>s'. foldE (dist_step_st rg tabs c1 c2 a b) ns s = Inr s' \<longrightarrow> same_store st s')"
proof (rule foldE_sim[where I = "same_store st", OF _ assms])
  fix n t assume "same_store st t"
  then obtain cs where t: "t = (cs, st)" by (cases t) (simp add: same_store_def)
  show "map_result (\<lambda>s. map (view_con st) (fst s)) (dist_step_st rg tabs c1 c2 a b n t) =
          dist_step (view st rg) tabs c1 c2 a b n (map (view_con st) (fst t)) \<and>
        (\<forall>s'. dist_step_st rg tabs c1 c2 a b n t = Inr s' \<longrightarrow> same_store st s')"
    using dist_step_sim[of st rg tabs c1 c2 a b n cs] by (simp add: t same_store_def)
qed

lemma axis_loop_sim:
  assumes "same_store st s"
  shows "map_result (\<lambda>s. map (view_con st) (fst s))
           (foldE (\<lambda>(a, b). foldE (dist_step_st rg tabs (k1 a) (k2 b) a b) ns) ps s) =
         foldE (\<lambda>(a, b). foldE (dist_step (view st rg) tabs (k1 a) (k2 b) a b) ns) ps
           (map (view_con st) (fst s)) \<and>
         (\<forall>s'. foldE (\<lambda>(a, b). foldE (dist_step_st rg tabs (k1 a) (k2 b) a b) ns) ps s = Inr s'
             \<longrightarrow> same_store st s')"
proof (rule foldE_sim[where I = "same_store st", OF _ assms])
  fix x :: "nat \<times> nat" and t assume t: "same_store st t"
  obtain a b where x: "x = (a, b)" by (cases x)
  show "map_result (\<lambda>s. map (view_con st) (fst s))
          ((case x of (a, b) \<Rightarrow> foldE (dist_step_st rg tabs (k1 a) (k2 b) a b) ns) t) =
        (case x of (a, b) \<Rightarrow> foldE (dist_step (view st rg) tabs (k1 a) (k2 b) a b) ns)
          (map (view_con st) (fst t)) \<and>
        (\<forall>s'. (case x of (a, b) \<Rightarrow> foldE (dist_step_st rg tabs (k1 a) (k2 b) a b) ns) t = Inr s'
            \<longrightarrow> same_store st s')"
    using dist_loop_sim[OF t, of rg tabs "k1 a" "k2 b" a b ns] by (simp add: x)
qed

lemma row_loop_sim:
  assumes "same_store st s"
  shows "map_result (\<lambda>s. map (view_con st) (fst s)) (row_loop_st rg tabs R M N s) =
           row_loop (view st rg) tabs R M N (map (view_con st) (fst s)) \<and>
         (\<forall>s'. row_loop_st rg tabs R M N s = Inr s' \<longrightarrow> same_store st s')"
  unfolding row_loop_st_def row_loop_def
proof (rule foldE_sim[where I = "same_store st", OF _ assms])
  fix i t assume t: "same_store st t"
  show "map_result (\<lambda>s. map (view_con st) (fst s))
          (foldE (\<lambda>(a, b). foldE (dist_step_st rg tabs (i, a) (i, b) a b) [0..<R])
             (List.product [0..<M] [0..<M]) t) =
        foldE (\<lambda>(a, b). foldE (dist_step (view st rg) tabs (i, a) (i, b) a b) [0..<R])
          (List.product [0..<M] [0..<M]) (map (view_con st) (fst t)) \<and>
        (\<forall>s'. foldE (\<lambda>(a, b). foldE (dist_step_st rg tabs (i, a) (i, b) a b) [0..<R])
                (List.product [0..<M] [0..<M]) t = Inr s' \<longrightarrow> same_store st s')"
    by (rule axis_loop_sim[OF t, where ?k1.0 = "Pair i" and ?k2.0 = "Pair i"])
qed

lemma col_loop_sim:
  assumes "same_store st s"
  shows "map_result (\<lambda>s. map (view_con st) (fst s)) (col_loop_st rg tabs R M N s) =
           col_loop (view st rg) tabs R M N (map (view_con st) (fst s)) \<and>
         (\<forall>s'. col_loop_st rg tabs R M N s = Inr s' \<longrightarrow> same_store st s')"
  unfolding col_loop_st_def col_loop_def
proof (rule foldE_sim[where I = "same_store st", OF _ assms])
  fix i t assume t: "same_store st t"
  show "map_result (\<lambda>s. map (view_con st) (fst s))
          (foldE (\<lambda>(a, b). foldE (dist_step_st rg tabs (a, i) (b, i) a b) [0..<R])
             (List.product [0..<N] [0..<N]) t) =
        foldE (\<lambda>(a, b). foldE (dist_step (view st rg) tabs (a, i) (b, i) a b) [0..<R])
          (List.product [0..<N] [0..<N]) (map (view_con st) (fst t)) \<and>
        (\<forall>s'. foldE (\<lambda>(a, b). foldE (dist_step_st rg tabs (a, i) (b, i) a b) [0..<R])
                (List.product [0..<N] [0..<N]) t = Inr s' \<longrightarrow> same_store st s')"
    by (rule axis_loop_sim[OF t, where ?k1.0 = "\<lambda>a. (a, i)" and ?k2.0 = "\<lambda>b. (b, i)"])
qed

lemma space_constraint_sim:
  "map_result (\<lambda>s. map (view_con st) (fst s)) (space_constraint_st rg R M N st) =
     space_constraint (view st rg) R M N"
  and space_constraint_st_store: "space_constraint_st rg R M N st = Inr (cs, st') \<Longrightarrow> st' = st"
proof -
  have s0: "same_store st ([], st)" by (simp add: same_store_def)
  show "map_result (\<lambda>s. map (view_con st) (fst s)) (space_constraint_st rg R M N st) =
     space_constraint (view st rg) R M N"
  proof (cases "n_dist_tuples R")
    case (Inl e)
    then show ?thesis by (simp add: space_constraint_st_def space_constraint_def)
  next
    case (Inr tabs)
    note r = row_loop_sim[OF s0, of rg tabs R M N]
    show ?thesis
    proof (cases "row_loop_st rg tabs R M N ([], st)")
      case (Inl e)
      with r have "row_loop (view st rg) tabs R M N [] = Inl e" by simp
      with Inl Inr show ?thesis by (simp add: space_constraint_st_def space_constraint_def)
    next
      case s: (Inr s)
      with r have rows: "row_loop (view st rg) tabs R M N [] = Inr (map (view_con st) (fst s))"
        and ss: "same_store st s" by simp_all
      from col_loop_sim[OF ss, of rg tabs R M N] s rows Inr show ?thesis
        by (simp add: space_constraint_st_def space_constraint_def)
    qed
  qed
  show "space_constraint_st rg R M N st = Inr (cs, st') \<Longrightarrow> st' = st"
  proof -
    assume run: "space_constraint_st rg R M N st = Inr (cs, st')"
    then obtain tabs s where rows: "row_loop_st rg tabs R M N ([], st) = Inr s"
      and cols: "col_loop_st rg tabs R M N s = Inr (cs, st')"
      by (auto simp: space_constraint_st_def split: sum.splits)
    from row_loop_sim[OF s0, of rg tabs R M N] rows have "same_store st s" by simp
    from col_loop_sim[OF this, of rg tabs R M N] cols have "same_store st (cs, st')" by simp
    then show "st' = st" by (simp add: same_store_def)
  qed
qed

lemma mapES_sim:
  assumes "\<And>x. x \<in> set xs \<Longrightarrow> map_result (\<lambda>r. h (fst r)) (f x st) = g x \<and>
                               (\<forall>r. f x st = Inr r \<longrightarrow> snd r = st)"
  shows "map_result (\<lambda>r. map h (fst r)) (mapES f xs st) = mapE g xs \<and>
         (\<forall>r. mapES f xs st = Inr r \<longrightarrow> snd r = st)"
  using assms
proof (induction xs)
  case Nil
  show ?case by simp
next
  case (Cons x xs)
  have xs: "x \<in> set (x # xs)" by simp
  note h = Cons.prems[OF xs]
  have ih: "map_result (\<lambda>r. map h (fst r)) (mapES f xs st) = mapE g xs \<and>
            (\<forall>r. mapES f xs st = Inr r \<longrightarrow> snd r = st)"
  proof (rule Cons.IH)
    fix z assume "z \<in> set xs"
    then have "z \<in> set (x # xs)" by simp
    then show "map_result (\<lambda>r. h (fst r)) (f z st) = g z \<and> (\<forall>r. f z st = Inr r \<longrightarrow> snd r = st)"
      by (rule Cons.prems)
  qed
  show ?case
  proof (cases "f x st")
    case (Inl e)
    with h have "g x = Inl e" by simp
    with Inl show ?thesis by simp
  next
    case (Inr r)
    obtain y s1 where r: "r = (y, s1)" by (cases r)
    with h Inr have gx: "g x = Inr (h y)" and s1: "s1 = st" by auto
    show ?thesis
    proof (cases "mapES f xs st")
      case (Inl e)
      with ih have "mapE g xs = Inl e" by simp
      with Inl Inr r s1 gx show ?thesis by simp
    next
      case rs: (Inr rs)
      obtain ys s2 where rs': "rs = (ys, s2)" by (cases rs)
      with ih rs have "mapE g xs = Inr (map h ys)" "s2 = st" by auto
      with rs rs' Inr r s1 gx show ?thesis by simp
    qed
  qed
qed

lemma fold_obj_add_var:
  "fold obj_add_var row (c, st) = (c\<lparr>cs_vars := cs_vars c @ row\<rparr>, st)"
  by (induction row arbitrary: c) (simp_all add: obj_add_var_def)

lemma fold_obj_add_vars:
  "fold (\<lambda>row. fold obj_add_var row) rg (c, st) = (c\<lparr>cs_vars := cs_vars c @ concat rg\<rparr>, st)"
  by (induction rg arbitrary: c) (simp_all add: fold_obj_add_var)

lemma fold_obj_add_room:
  "fold obj_add_room rs (c, st) = (c\<lparr>cs_rooms := cs_rooms c @ rs\<rparr>, st)"
  by (induction rs arbitrary: c) (simp_all add: obj_add_room_def)

lemma fold_obj_add_constraint:
  "fold obj_add_constraint ks (c, st) = (c\<lparr>cs_cons := cs_cons c @ ks\<rparr>, st)"
  by (induction ks arbitrary: c) (simp_all add: obj_add_constraint_def)

lemma csp_obj_assembled:
  "fold obj_add_constraint space_cons
     (fold obj_add_constraint room_cons
       (fold obj_add_room rooms
         (fold (\<lambda>row. fold obj_add_var row) rg (new_CSP ''Ripple_Effect'' st)))) =
   (\<lparr>cs_name = ''Ripple_Effect'', cs_vars = concat rg, cs_rooms = rooms,
     cs_cons = room_cons @ space_cons\<rparr>, st)"
  by (simp add: new_CSP_def fold_obj_add_vars fold_obj_add_room fold_obj_add_constraint)

lemma view_concat: "map (nth st) (concat rg) = concat (view st rg)"
  by (simp add: view_def map_concat)


lemma room_constraint_sim':
  "map_result (\<lambda>r. view_con st (fst r)) (room_constraint_st rg room k st) =
     room_constraint (view st rg) room k \<and>
   (\<forall>r. room_constraint_st rg room k st = Inr r \<longrightarrow> snd r = st)"
proof (cases "room_constraint_st rg room k st")
  case (Inl e)
  with room_constraint_sim[of rg room k st] show ?thesis by simp
next
  case (Inr r)
  obtain c st' where r: "r = (c, st')" by (cases r)
  with Inr have "st' = st" by (auto dest: room_constraint_st_store)
  with room_constraint_sim[of rg room k st] Inr r show ?thesis by simp
qed

lemma ripple_st_unfold:
  "ripple_effect_csp_model_st b rooms st0 =
     (case py_index b 0 of Inl e \<Rightarrow> Inl e | Inr row0 \<Rightarrow>
       (case make_variable_st b rooms ((length row0 + 1) div 2) ((length b + 1) div 2) st0
        of Inl e \<Rightarrow> Inl e | Inr (rg, st1) \<Rightarrow>
         (case mapES (\<lambda>(k, room). room_constraint_st rg room (k + 1)) (enumerate_list rooms) st1
          of Inl e \<Rightarrow> Inl e | Inr (room_cons, st2) \<Rightarrow>
           (case py_max (map length rooms) of Inl e \<Rightarrow> Inl e | Inr R \<Rightarrow>
             (case space_constraint_st rg R ((length row0 + 1) div 2) ((length b + 1) div 2) st2
              of Inl e \<Rightarrow> Inl e | Inr (space_cons, st3) \<Rightarrow>
                Inr (\<lparr>cs_name = ''Ripple_Effect'', cs_vars = concat rg, cs_rooms = rooms,
                      cs_cons = room_cons @ space_cons\<rparr>, rg, st3))))))"
  by (simp add: ripple_effect_csp_model_st_def Let_def csp_obj_assembled
           split: sum.splits prod.splits)

lemma ripple_unfold0:
  "ripple_effect_csp_model b rooms =
     (case py_index b 0 of Inl e \<Rightarrow> Inl e | Inr row0 \<Rightarrow>
       (case make_variable b rooms ((length row0 + 1) div 2) ((length b + 1) div 2)
        of Inl e \<Rightarrow> Inl e | Inr g \<Rightarrow>
         (case mapE (\<lambda>(k, room). room_constraint g room (k + 1)) (enumerate_list rooms)
          of Inl e \<Rightarrow> Inl e | Inr room_cons \<Rightarrow>
           (case py_max (map length rooms) of Inl e \<Rightarrow> Inl e | Inr R \<Rightarrow>
             (case space_constraint g R ((length row0 + 1) div 2) ((length b + 1) div 2)
              of Inl e \<Rightarrow> Inl e | Inr space_cons \<Rightarrow>
                Inr (\<lparr>csp_name = ''Ripple_Effect'', vars = concat g, rooms_of = rooms,
                      cons = room_cons @ space_cons\<rparr>, g))))))"
  by (simp add: ripple_effect_csp_model_def Let_def csp_assembled split: sum.splits)

lemma room_cons_sim:
  "map_result (\<lambda>r. map (view_con st) (fst r))
     (mapES (\<lambda>(k, room). room_constraint_st rg room (k + 1)) xs st) =
   mapE (\<lambda>(k, room). room_constraint (view st rg) room (k + 1)) xs \<and>
   (\<forall>r. mapES (\<lambda>(k, room). room_constraint_st rg room (k + 1)) xs st = Inr r \<longrightarrow> snd r = st)"
proof (rule mapES_sim)
  fix x :: "nat \<times> room"
  obtain k room where x: "x = (k, room)" by (cases x)
  show "map_result (\<lambda>r. view_con st (fst r))
          ((case x of (k, room) \<Rightarrow> room_constraint_st rg room (k + 1)) st) =
        (case x of (k, room) \<Rightarrow> room_constraint (view st rg) room (k + 1)) \<and>
        (\<forall>r. (case x of (k, room) \<Rightarrow> room_constraint_st rg room (k + 1)) st = Inr r \<longrightarrow> snd r = st)"
    using room_constraint_sim'[of st rg room "k + 1"] by (simp add: x)
qed

lemma ripple_sim:
  "view_result (ripple_effect_csp_model_st b rooms st0) = ripple_effect_csp_model b rooms"
proof (cases "py_index b 0")
  case (Inl e)
  then show ?thesis by (simp add: ripple_st_unfold ripple_unfold0 view_result_def)
next
  case row0: (Inr row0)
  let ?M = "(length row0 + 1) div 2" and ?N = "(length b + 1) div 2"
  note mv = make_variable_sim(1)[of b rooms ?M ?N st0]
  show ?thesis
  proof (cases "make_variable_st b rooms ?M ?N st0")
    case (Inl e)
    with mv have "make_variable b rooms ?M ?N = Inl e" by simp
    with Inl row0 show ?thesis by (simp add: ripple_st_unfold ripple_unfold0 view_result_def)
  next
    case m: (Inr m)
    obtain rg st where m': "m = (rg, st)" by (cases m)
    with mv m have g: "make_variable b rooms ?M ?N = Inr (view st rg)" by simp
    note rc = room_cons_sim[of st rg "enumerate_list rooms"]
    show ?thesis
    proof (cases "mapES (\<lambda>(k, room). room_constraint_st rg room (k + 1)) (enumerate_list rooms) st")
      case (Inl e)
      with rc have "mapE (\<lambda>(k, room). room_constraint (view st rg) room (k + 1))
                      (enumerate_list rooms) = Inl e" by simp
      with Inl row0 m m' g show ?thesis
        by (simp add: ripple_st_unfold ripple_unfold0 view_result_def)
    next
      case r: (Inr r)
      obtain rcs st2 where r': "r = (rcs, st2)" by (cases r)
      with rc r have rcs: "mapE (\<lambda>(k, room). room_constraint (view st rg) room (k + 1))
                      (enumerate_list rooms) = Inr (map (view_con st) rcs)" and st2: "st2 = st"
        by auto
      show ?thesis
      proof (cases "py_max (map length rooms)")
        case (Inl e)
        with row0 m m' g r r' rcs show ?thesis
          by (simp add: ripple_st_unfold ripple_unfold0 view_result_def)
      next
        case R: (Inr R)
        note sp = space_constraint_sim[of st rg R ?M ?N]
        show ?thesis
        proof (cases "space_constraint_st rg R ?M ?N st")
          case (Inl e)
          with sp have "space_constraint (view st rg) R ?M ?N = Inl e" by simp
          with Inl row0 m m' g r r' rcs st2 R show ?thesis
            by (simp add: ripple_st_unfold ripple_unfold0 view_result_def)
        next
          case s: (Inr s)
          obtain scs st3 where s': "s = (scs, st3)" by (cases s)
          with s have st3: "st3 = st" by (auto dest: space_constraint_st_store)
          from sp s s' have scs: "space_constraint (view st rg) R ?M ?N = Inr (map (view_con st) scs)"
            by simp
          from row0 m m' g r r' rcs st2 R s s' st3 scs show ?thesis
            by (simp add: ripple_st_unfold ripple_unfold0 view_result_def view_csp_def view_concat)
        qed
      qed
    qed
  qed
qed

lemma ripple_st_store:
  assumes "ripple_effect_csp_model_st b rooms st0 = Inr (model, rg, st)"
  shows "make_variable_st b rooms ((length (hd b) + 1) div 2) ((length b + 1) div 2) st0 = Inr (rg, st)"
proof -
  from assms obtain row0 rest where b: "b = row0 # rest"
    by (cases b) (auto simp: ripple_st_unfold py_index_def py_pos_def)
  then have p: "py_index b 0 = Inr (hd b)" by (simp add: py_index_def py_pos_def)
  let ?M = "(length (hd b) + 1) div 2" and ?N = "(length b + 1) div 2"
  from assms p obtain st1 rcs st2 R scs where
    mv: "make_variable_st b rooms ?M ?N st0 = Inr (rg, st1)"
    and rc: "mapES (\<lambda>(k, room). room_constraint_st rg room (k + 1)) (enumerate_list rooms) st1 =
               Inr (rcs, st2)"
    and sp: "space_constraint_st rg R ?M ?N st2 = Inr (scs, st)"
    by (auto simp: ripple_st_unfold split: sum.splits prod.splits)
  from room_cons_sim[of st1 rg "enumerate_list rooms"] rc have "st2 = st1" by simp
  moreover from sp have "st = st2" by (rule space_constraint_st_store)
  ultimately show ?thesis using mv by simp
qed

text \<open>
  C8. In the builder over the store of variable objects, \<open>room_constraint\<close> and
  \<open>space_constraint\<close> return the store they were given, whatever the room, the index,
  the distance bound and the result; and when \<open>ripple_effect_csp_model\<close> returns, the
  store it returns is the store at the end of \<open>make_variable\<close>, with the same grid of
  references: every variable has the domain and assignment it had at the end of
  \<open>make_variable\<close>.
\<close>

theorem generators_leave_store:
  assumes "ripple_effect_csp_model_st board rooms st0 = Inr (model, var_array, st)"
  shows "make_variable_st board rooms ((length (hd board) + 1) div 2) ((length board + 1) div 2) st0
           = Inr (var_array, st) \<and>
         (\<forall>room k c st'. room_constraint_st var_array room k st = Inr (c, st') \<longrightarrow> st' = st) \<and>
         (\<forall>max_rsize M N cs st'.
            space_constraint_st var_array max_rsize M N st = Inr (cs, st') \<longrightarrow> st' = st)"
  using ripple_st_store[OF assms] room_constraint_st_store space_constraint_st_store
  by blast

theorem generators_leave_store_witness:
  "\<exists>model var_array st.
     ripple_effect_csp_model_st [[PInt 0, PStr ''|'', PInt 2]] [[(0, 0), (0, 1)]] [] =
       Inr (model, var_array, st) \<and>
     make_variable_st [[PInt 0, PStr ''|'', PInt 2]] [[(0, 0), (0, 1)]] 2 1 [] = Inr (var_array, st) \<and>
     st = [\<lparr>var_name = ''V0,0'', domain = [PInt 1, PInt 2], assignedValue = None\<rparr>,
           \<lparr>var_name = ''V0,1'', domain = [PInt 2], assignedValue = Some (PInt 2)\<rparr>] \<and>
     (\<forall>room k c st'. room_constraint_st var_array room k st = Inr (c, st') \<longrightarrow> st' = st) \<and>
     (\<forall>max_rsize M N cs st'.
        space_constraint_st var_array max_rsize M N st = Inr (cs, st') \<longrightarrow> st' = st)"
proof -
  let ?b = "[[PInt 0, PStr ''|'', PInt 2]]"
  let ?rooms = "[[(0, 0), (0, 1)]] :: room list"
  let ?st = "[\<lparr>var_name = ''V0,0'', domain = [PInt 1, PInt 2], assignedValue = None\<rparr>,
           \<lparr>var_name = ''V0,1'', domain = [PInt 2], assignedValue = Some (PInt 2)\<rparr>]"
  have "ripple_effect_csp_model_st ?b ?rooms [] \<noteq> Inl IndexError"
    and "ripple_effect_csp_model_st ?b ?rooms [] \<noteq> Inl ValueError"
    by code_simp+
  then obtain model var_array st where
    run: "ripple_effect_csp_model_st ?b ?rooms [] = Inr (model, var_array, st)"
    by (cases "ripple_effect_csp_model_st ?b ?rooms []") (metis error.exhaust, auto)
  have n: "(length (hd ?b) + 1) div 2 = 2" "(length ?b + 1) div 2 = 1" by simp_all
  note g = generators_leave_store[OF run, unfolded n]
  have mv: "make_variable_st ?b ?rooms 2 1 [] = Inr ([[0, 1]], ?st)" by code_simp
  from g mv have e: "st = ?st" by simp
  from run g e show ?thesis by blast
qed

text \<open>
  C9. The model that \<open>ripple_effect_csp_model\<close> builds does not depend on the store
  it starts from, that is, on the objects earlier runs left behind or on the addresses
  its variables get: two runs on the same board and room list, from any two stores,
  end alike (both raise the same exception or both return), and what they return is
  structurally identical once the references are read: the same variables with the same
  names, domains and assignments, the same rooms, and the same constraints in the same
  order with the same names, scopes and tables. That common result is the value the
  function \<open>ripple_effect_csp_model\<close> computes.
\<close>

theorem model_independent_of_store:
  "view_result (ripple_effect_csp_model_st board rooms st1) =
     view_result (ripple_effect_csp_model_st board rooms st2) \<and>
   view_result (ripple_effect_csp_model_st board rooms st1) =
     ripple_effect_csp_model board rooms"
  by (simp only: ripple_sim)

end
